theory Spec2Isabelle
  imports Main
begin

section \<open>The router of kellegous/router (router.go)\<close>

subsection \<open>Verbs, handlers, routes and nodes\<close>

text \<open>
  \<^verbatim>\<open>type Verb int\<close> with the constants \<^verbatim>\<open>Delete .. Put\<close> (0 to 6) and the
  unexported sentinel \<^verbatim>\<open>unknownVerb\<close> (7), which is only the length of the verb array.
  The type is the closed enumeration of the seven constants; an integer outside 0 to 6
  converted to \<^verbatim>\<open>Verb\<close> is not a verb of the interface and is not modelled.
\<close>

datatype Verb = Delete | Get | Head | Options | Patch | Post | Put

text \<open>\<^verbatim>\<open>var verbs = map[string]Verb{...}\<close>\<close>

definition verbs :: "string \<Rightarrow> Verb option" where
  "verbs = map_of
     [(''DELETE'', Delete), (''GET'', Get), (''HEAD'', Head), (''OPTIONS'', Options),
      (''PATCH'', Patch), (''POST'', Post), (''PUT'', Put)]"

text \<open>The loop \<^verbatim>\<open>for i := 0; i < int(unknownVerb); i++\<close> visits the verbs in this order.\<close>

definition all_verbs :: "Verb list" where
  "all_verbs = [Delete, Get, Head, Options, Patch, Post, Put]"

text \<open>
  A \<^verbatim>\<open>Handler\<close> is a Go function value, so it may be \<^verbatim>\<open>nil\<close>: a handler is
  \<open>'h option\<close>, \<open>None\<close> being \<^verbatim>\<open>nil\<close>. \<^verbatim>\<open>route.vb\<close> is the array
  \<^verbatim>\<open>[unknownVerb]Handler\<close>, indexed by the verb.
\<close>

datatype 'h route = Route (vb: "Verb \<Rightarrow> 'h option")

text \<open>
  \<^verbatim>\<open>type router struct { ch map[string]*router; rt *route }\<close>. A \<^verbatim>\<open>nil\<close> map and an
  empty map read alike, and \<^verbatim>\<open>place\<close> is the only writer, so both are the empty map;
  \<^verbatim>\<open>rt == nil\<close> is \<open>None\<close>.
\<close>

datatype 'h router = Router (ch: "string \<Rightarrow> 'h router option") (rt: "'h route option")

definition new_router :: "'h router" where
  "new_router = Router Map.empty None"

subsection \<open>Segment keys\<close>

text \<open>\<^verbatim>\<open>strings.Index(path, "/")\<close>: the index of the first slash, or -1.\<close>

definition strings_Index_slash :: "string \<Rightarrow> int" where
  "strings_Index_slash s =
     (if CHR ''/'' \<in> set s then int (length (takeWhile (\<lambda>c. c \<noteq> CHR ''/'') s)) else - 1)"

text \<open>
  \<^verbatim>\<open>k := path; ix := strings.Index(path, "/"); if ix >= 0 { k = path[:ix+1] }\<close>
\<close>

definition seg_key :: "string \<Rightarrow> string" where
  "seg_key path =
     (let ix = strings_Index_slash path in if ix \<ge> 0 then take (nat (ix + 1)) path else path)"

text \<open>\<^verbatim>\<open>path[len(k):]\<close>\<close>

definition seg_rest :: "string \<Rightarrow> string" where
  "seg_rest path = drop (length (seg_key path)) path"

text \<open>\<^verbatim>\<open>strings.TrimRight(k, "/")\<close> removes every trailing slash.\<close>

definition TrimRight_slash :: "string \<Rightarrow> string" where
  "TrimRight_slash k = rev (dropWhile (\<lambda>c. c = CHR ''/'') (rev k))"

text \<open>\<^verbatim>\<open>w := "*"; if k[len(k)-1] == '/' { w = "*/" }\<close> (\<open>k\<close> is never empty there).\<close>

definition wild_key :: "string \<Rightarrow> string" where
  "wild_key k = (if last k = CHR ''/'' then ''*/'' else ''*'')"

lemma seg_key_nonempty: "path \<noteq> [] \<Longrightarrow> seg_key path \<noteq> []"
  by (cases path) (auto simp: seg_key_def strings_Index_slash_def Let_def)

lemma seg_rest_shorter: "path \<noteq> [] \<Longrightarrow> length (seg_rest path) < length path"
  using seg_key_nonempty [of path] by (cases path) (auto simp: seg_rest_def)

subsection \<open>Construction: place and set\<close>

text \<open>
  \<^verbatim>\<open>place\<close> walks the path one segment key at a time, creates the missing children and
  returns the terminal node, which the caller then mutates in place. With the tree as a
  value, the caller's mutation is the argument \<open>f\<close>, applied to the terminal node; every
  node on the way is rebuilt around its updated child.
\<close>

function place :: "'h router \<Rightarrow> string \<Rightarrow> ('h router \<Rightarrow> 'h router) \<Rightarrow> 'h router" where
  "place r path f =
     (if path = [] then f r
      else let k = seg_key path;
               c = (case ch r k of None \<Rightarrow> Router Map.empty None | Some c \<Rightarrow> c)
           in Router ((ch r)(k \<mapsto> place c (seg_rest path) f)) (rt r))"
  by pat_completeness auto
termination
  by (relation "measure (\<lambda>(r, path, f). length path)") (auto simp: seg_rest_shorter)

declare place.simps [simp del]

text \<open>
  \<^verbatim>\<open>func (r *router) set(verb Verb, h Handler)\<close>: creates the route if there is none,
  then stores the handler (\<^verbatim>\<open>nil\<close> included) in the verb's slot.
\<close>

definition set_verb :: "Verb \<Rightarrow> 'h option \<Rightarrow> 'h router \<Rightarrow> 'h router" where
  "set_verb verb h r =
     (let ro = (case rt r of None \<Rightarrow> Route (\<lambda>v. None) | Some ro \<Rightarrow> ro)
      in Router (ch r) (Some (Route ((vb ro)(verb := h)))))"

subsection \<open>Lookup: find\<close>

text \<open>\<^verbatim>\<open>h != nil && h.rt != nil\<close>\<close>

definition routed :: "'h router option \<Rightarrow> bool" where
  "routed res = (case res of None \<Rightarrow> False | Some h \<Rightarrow> rt h \<noteq> None)"

text \<open>
  \<^verbatim>\<open>find\<close> returns the node found (or \<^verbatim>\<open>nil\<close>) and appends to \<^verbatim>\<open>*names\<close>; the
  model returns the pair of the node and the name list as the call leaves it. An append
  made before a wildcard recursion stays in the list whatever that recursion returns.
\<close>

function find :: "'h router \<Rightarrow> string \<Rightarrow> string list \<Rightarrow> 'h router option \<times> string list" where
  "find r path names =
     (if path = [] then (Some r, names)
      else
        let k = seg_key path;
            (res1, names1) =
              (case ch r k of None \<Rightarrow> (None, names) | Some c \<Rightarrow> find c (seg_rest path) names)
        in if routed res1 then (res1, names1)
           else
             (case ch r (wild_key k) of
                None \<Rightarrow> (None, names1)
              | Some c \<Rightarrow>
                  let (res2, names2) = find c (seg_rest path) (names1 @ [TrimRight_slash k])
                  in if routed res2 then (res2, names2) else (None, names2)))"
  by pat_completeness auto
termination
  by (relation "measure (\<lambda>(r, path, names). length path)") (auto simp: seg_rest_shorter)

declare find.simps [simp del]

subsection \<open>Registration and dispatch\<close>

text \<open>
  \<^verbatim>\<open>path[1:]\<close> drops the first byte; on the empty string the slice bound 1 exceeds
  the length 0 and Go panics (slice bounds out of range).
\<close>

datatype error = SliceBoundsPanic

definition slice_from_1 :: "string \<Rightarrow> error + string" where
  "slice_from_1 path = (if length path < 1 then Inl SliceBoundsPanic else Inr (drop 1 path))"

text \<open>\<^verbatim>\<open>func (r *router) Handle(verb Verb, path string, h Handler) { r.place(path[1:]).set(verb, h) }\<close>\<close>

definition Handle :: "Verb \<Rightarrow> string \<Rightarrow> 'h option \<Rightarrow> 'h router \<Rightarrow> error + 'h router" where
  "Handle verb path h r =
     (case slice_from_1 path of
        Inl e \<Rightarrow> Inl e
      | Inr p \<Rightarrow> Inr (place r p (set_verb verb h)))"

text \<open>
  \<^verbatim>\<open>HandleAll\<close> places once and then sets the seven slots of the terminal node in the
  order of the loop.
\<close>

definition HandleAll :: "string \<Rightarrow> 'h option \<Rightarrow> 'h router \<Rightarrow> error + 'h router" where
  "HandleAll path h r =
     (case slice_from_1 path of
        Inl e \<Rightarrow> Inl e
      | Inr p \<Rightarrow> Inr (place r p (fold (\<lambda>v. set_verb v h) all_verbs)))"

text \<open>
  What \<^verbatim>\<open>ServeHTTP\<close> does with the response writer: \<^verbatim>\<open>http.Error\<close> and
  \<^verbatim>\<open>http.NotFound\<close> write a status, or the handler is called with the names and the
  router itself writes nothing.
\<close>

datatype 'h response = Status nat | Invoked 'h "string list"

definition StatusMethodNotAllowed :: nat where
  "StatusMethodNotAllowed = 405"

definition StatusNotFound :: nat where
  "StatusNotFound = 404"

definition ServeHTTP :: "'h router \<Rightarrow> string \<Rightarrow> string \<Rightarrow> error + 'h response" where
  "ServeHTTP r method url_path =
     (case verbs method of
        None \<Rightarrow> Inr (Status StatusMethodNotAllowed)
      | Some v \<Rightarrow>
          (case slice_from_1 url_path of
             Inl e \<Rightarrow> Inl e
           | Inr p \<Rightarrow>
               (case find r p [] of
                  (None, names) \<Rightarrow> Inr (Status StatusNotFound)
                | (Some t, names) \<Rightarrow>
                    (case rt t of
                       None \<Rightarrow> Inr (Status StatusNotFound)
                     | Some ro \<Rightarrow>
                         (case vb ro v of
                            Some h \<Rightarrow> Inr (Invoked h names)
                          | None \<Rightarrow> Inr (Status StatusMethodNotAllowed))))))"

text \<open>A run of registrations on a builder, stopping at the first panic.\<close>

datatype 'h registration = RHandle Verb string "'h option" | RHandleAll string "'h option"

fun register :: "'h registration \<Rightarrow> 'h router \<Rightarrow> error + 'h router" where
  "register (RHandle verb path h) r = Handle verb path h r"
| "register (RHandleAll path h) r = HandleAll path h r"

fun register_all :: "'h registration list \<Rightarrow> 'h router \<Rightarrow> error + 'h router" where
  "register_all [] r = Inr r"
| "register_all (x # xs) r =
     (case register x r of Inl e \<Rightarrow> Inl e | Inr r' \<Rightarrow> register_all xs r')"

text \<open>
  A client's use of the package: \<^verbatim>\<open>r := New()\<close>, the registrations,
  \<^verbatim>\<open>h := r.Build()\<close>, then \<^verbatim>\<open>h.ServeHTTP(w, req)\<close> for a request with the given
  method and URL path.
\<close>

definition serve_after :: "'h registration list \<Rightarrow> string \<Rightarrow> string \<Rightarrow> error + 'h response" where
  "serve_after regs method url_path =
     (case register_all regs new_router of
        Inl e \<Rightarrow> Inl e
      | Inr t \<Rightarrow> ServeHTTP t method url_path)"

subsection \<open>Addressing the nodes of a tree\<close>

text \<open>The list of segment keys that \<open>place\<close> and \<open>find\<close> cut a path into.\<close>

function segments :: "string \<Rightarrow> string list" where
  "segments path = (if path = [] then [] else seg_key path # segments (seg_rest path))"
  by pat_completeness auto
termination
  by (relation "measure length") (auto simp: seg_rest_shorter)

declare segments.simps [simp del]

text \<open>The node reached from \<open>r\<close> by following the children keyed \<open>ks\<close>, if there is one.\<close>

fun node_at :: "'h router \<Rightarrow> string list \<Rightarrow> 'h router option" where
  "node_at r [] = Some r"
| "node_at r (k # ks) = (case ch r k of None \<Rightarrow> None | Some c \<Rightarrow> node_at c ks)"

text \<open>The same, with the fresh node \<^verbatim>\<open>&router{}\<close> that \<open>place\<close> creates where none is.\<close>

definition node_or_new :: "'h router \<Rightarrow> string list \<Rightarrow> 'h router" where
  "node_or_new r ks = (case node_at r ks of None \<Rightarrow> Router Map.empty None | Some n \<Rightarrow> n)"

definition rt_at :: "'h router \<Rightarrow> string list \<Rightarrow> 'h route option option" where
  "rt_at r ks = map_option rt (node_at r ks)"


text \<open>The invariant of the data model: a node with a route has a populated verb slot.\<close>

definition route_populated :: "'h router \<Rightarrow> bool" where
  "route_populated n =
     (case rt n of None \<Rightarrow> True | Some ro \<Rightarrow> list_ex (\<lambda>v. vb ro v \<noteq> None) all_verbs)"

fun reg_path :: "'h registration \<Rightarrow> string" where
  "reg_path (RHandle verb path h) = path"
| "reg_path (RHandleAll path h) = path"

fun reg_handler :: "'h registration \<Rightarrow> 'h option" where
  "reg_handler (RHandle verb path h) = h"
| "reg_handler (RHandleAll path h) = h"

text \<open>
  Every node of \<open>t\<close> satisfies the invariant, and every node with a route is keyed by
  one of the key lists in \<open>S\<close>.
\<close>

definition routes_inv :: "string list set \<Rightarrow> 'h router \<Rightarrow> bool" where
  "routes_inv S t =
     (\<forall>ks. case node_at t ks of
             None \<Rightarrow> True
           | Some n \<Rightarrow> route_populated n \<and> (rt n = None \<or> ks \<in> S))"

section \<open>The builder and its snapshot on a heap\<close>

text \<open>
  \<^verbatim>\<open>Build\<close> copies the root struct (\<^verbatim>\<open>n := *r\<close>) and resets the builder
  (\<^verbatim>\<open>*r = router{}\<close>): the copy shares the builder's child map and route, and later
  registrations mutate nodes in place through pointers. Whether they can reach the
  snapshot depends on that sharing, so here the program runs on an explicit store:
  \<^verbatim>\<open>*router\<close>, map and \<^verbatim>\<open>*route\<close> values are addresses, the store maps addresses to
  router structs, to maps and to verb arrays, and \<open>fresh\<close> is the next address that an
  allocation (\<^verbatim>\<open>&router{}\<close>, \<^verbatim>\<open>map[string]*router{}\<close>, \<^verbatim>\<open>&route{}\<close>) returns.
  \<open>None\<close> is \<^verbatim>\<open>nil\<close>.
\<close>

type_synonym addr = nat

record node =
  node_ch :: "addr option"
  node_rt :: "addr option"

record 'h heap =
  nodes :: "addr \<Rightarrow> node"
  maps :: "addr \<Rightarrow> (string \<Rightarrow> addr option)"
  routes :: "addr \<Rightarrow> (Verb \<Rightarrow> 'h option)"
  fresh :: addr

text \<open>\<^verbatim>\<open>router{}\<close>\<close>

definition empty_node :: node where
  "empty_node = \<lparr>node_ch = None, node_rt = None\<rparr>"

text \<open>\<^verbatim>\<open>func New() Builder { return &router{} }\<close>, in the empty store: the heap and the builder's address.\<close>

definition hNew :: "'h heap \<times> addr" where
  "hNew =
     (\<lparr>nodes = (\<lambda>a. empty_node), maps = (\<lambda>a. Map.empty), routes = (\<lambda>a v. None), fresh = 1\<rparr>, 0)"

text \<open>\<^verbatim>\<open>if r.ch == nil { r.ch = map[string]*router{} }\<close>; returns the heap and \<^verbatim>\<open>r.ch\<close>.\<close>

definition ensure_map :: "'h heap \<Rightarrow> addr \<Rightarrow> 'h heap \<times> addr" where
  "ensure_map h r =
     (case node_ch (nodes h r) of
        Some m \<Rightarrow> (h, m)
      | None \<Rightarrow>
          (h\<lparr>maps := (maps h)(fresh h := Map.empty),
             nodes := (nodes h)(r := (nodes h r)\<lparr>node_ch := Some (fresh h)\<rparr>),
             fresh := fresh h + 1\<rparr>,
           fresh h))"

text \<open>\<^verbatim>\<open>ch := r.ch[k]; if ch == nil { ch = &router{}; r.ch[k] = ch }\<close>; returns the heap and \<^verbatim>\<open>ch\<close>.\<close>

definition ensure_child :: "'h heap \<Rightarrow> addr \<Rightarrow> string \<Rightarrow> 'h heap \<times> addr" where
  "ensure_child h m k =
     (case maps h m k of
        Some c \<Rightarrow> (h, c)
      | None \<Rightarrow>
          (h\<lparr>nodes := (nodes h)(fresh h := empty_node),
             maps := (maps h)(m := (maps h m)(k \<mapsto> fresh h)),
             fresh := fresh h + 1\<rparr>,
           fresh h))"

text \<open>\<^verbatim>\<open>func (r *router) place(path string) *router\<close>\<close>

function hplace :: "'h heap \<Rightarrow> addr \<Rightarrow> string \<Rightarrow> 'h heap \<times> addr" where
  "hplace h r path =
     (if path = [] then (h, r)
      else
        let (h1, m) = ensure_map h r;
            k = seg_key path;
            (h2, c) = ensure_child h1 m k
        in hplace h2 c (seg_rest path))"
  by pat_completeness auto
termination
  by (relation "measure (\<lambda>(h, r, path). length path)") (auto simp: seg_rest_shorter)

declare hplace.simps [simp del]

text \<open>\<^verbatim>\<open>func (r *router) set(verb Verb, h Handler)\<close>\<close>

definition hset :: "'h heap \<Rightarrow> addr \<Rightarrow> Verb \<Rightarrow> 'h option \<Rightarrow> 'h heap" where
  "hset h r verb hdl =
     (let (h1, ro) =
            (case node_rt (nodes h r) of
               Some ro \<Rightarrow> (h, ro)
             | None \<Rightarrow>
                 (h\<lparr>routes := (routes h)(fresh h := (\<lambda>v. None)),
                    nodes := (nodes h)(r := (nodes h r)\<lparr>node_rt := Some (fresh h)\<rparr>),
                    fresh := fresh h + 1\<rparr>,
                  fresh h))
      in h1\<lparr>routes := (routes h1)(ro := (routes h1 ro)(verb := hdl))\<rparr>)"

text \<open>\<^verbatim>\<open>r.ch[k]\<close>: reading a \<^verbatim>\<open>nil\<close> map gives \<^verbatim>\<open>nil\<close>.\<close>

definition child :: "'h heap \<Rightarrow> addr \<Rightarrow> string \<Rightarrow> addr option" where
  "child h r k = (case node_ch (nodes h r) of None \<Rightarrow> None | Some m \<Rightarrow> maps h m k)"

text \<open>\<^verbatim>\<open>h != nil && h.rt != nil\<close>\<close>

definition hrouted :: "'h heap \<Rightarrow> addr option \<Rightarrow> bool" where
  "hrouted h res = (case res of None \<Rightarrow> False | Some t \<Rightarrow> node_rt (nodes h t) \<noteq> None)"

text \<open>\<^verbatim>\<open>func (r *router) find(path string, names *[]string) *router\<close>\<close>

function hfind :: "'h heap \<Rightarrow> addr \<Rightarrow> string \<Rightarrow> string list \<Rightarrow> addr option \<times> string list" where
  "hfind h r path names =
     (if path = [] then (Some r, names)
      else
        let k = seg_key path;
            (res1, names1) =
              (case child h r k of None \<Rightarrow> (None, names) | Some c \<Rightarrow> hfind h c (seg_rest path) names)
        in if hrouted h res1 then (res1, names1)
           else
             (case child h r (wild_key k) of
                None \<Rightarrow> (None, names1)
              | Some c \<Rightarrow>
                  let (res2, names2) = hfind h c (seg_rest path) (names1 @ [TrimRight_slash k])
                  in if hrouted h res2 then (res2, names2) else (None, names2)))"
  by pat_completeness auto
termination
  by (relation "measure (\<lambda>(h, r, path, names). length path)") (auto simp: seg_rest_shorter)

declare hfind.simps [simp del]

text \<open>\<^verbatim>\<open>Handle\<close>, \<^verbatim>\<open>HandleAll\<close>, \<^verbatim>\<open>Build\<close> and \<^verbatim>\<open>ServeHTTP\<close> on the receiver \<open>r\<close>.\<close>

definition hHandle :: "'h heap \<Rightarrow> addr \<Rightarrow> Verb \<Rightarrow> string \<Rightarrow> 'h option \<Rightarrow> error + 'h heap" where
  "hHandle h r verb path hdl =
     (case slice_from_1 path of
        Inl e \<Rightarrow> Inl e
      | Inr p \<Rightarrow> (let (h1, n) = hplace h r p in Inr (hset h1 n verb hdl)))"

definition hHandleAll :: "'h heap \<Rightarrow> addr \<Rightarrow> string \<Rightarrow> 'h option \<Rightarrow> error + 'h heap" where
  "hHandleAll h r path hdl =
     (case slice_from_1 path of
        Inl e \<Rightarrow> Inl e
      | Inr p \<Rightarrow> (let (h1, n) = hplace h r p in Inr (fold (\<lambda>v h'. hset h' n v hdl) all_verbs h1)))"

text \<open>
  \<^verbatim>\<open>n := *r; *r = router{}; return &n\<close>: the copy \<open>n\<close> escapes, so it is a new
  cell holding the builder's old fields; the builder's cell is reset.
\<close>

definition hBuild :: "'h heap \<Rightarrow> addr \<Rightarrow> 'h heap \<times> addr" where
  "hBuild h r =
     (h\<lparr>nodes := (nodes h)(fresh h := nodes h r, r := empty_node), fresh := fresh h + 1\<rparr>,
      fresh h)"

definition hServeHTTP :: "'h heap \<Rightarrow> addr \<Rightarrow> string \<Rightarrow> string \<Rightarrow> error + 'h response" where
  "hServeHTTP h r method url_path =
     (case verbs method of
        None \<Rightarrow> Inr (Status StatusMethodNotAllowed)
      | Some v \<Rightarrow>
          (case slice_from_1 url_path of
             Inl e \<Rightarrow> Inl e
           | Inr p \<Rightarrow>
               (case hfind h r p [] of
                  (None, names) \<Rightarrow> Inr (Status StatusNotFound)
                | (Some t, names) \<Rightarrow>
                    (case node_rt (nodes h t) of
                       None \<Rightarrow> Inr (Status StatusNotFound)
                     | Some ro \<Rightarrow>
                         (case routes h ro v of
                            Some hdl \<Rightarrow> Inr (Invoked hdl names)
                          | None \<Rightarrow> Inr (Status StatusMethodNotAllowed))))))"

fun hregister :: "'h registration \<Rightarrow> addr \<Rightarrow> 'h heap \<Rightarrow> error + 'h heap" where
  "hregister (RHandle verb path hdl) r h = hHandle h r verb path hdl"
| "hregister (RHandleAll path hdl) r h = hHandleAll h r path hdl"

fun hregister_all :: "'h registration list \<Rightarrow> addr \<Rightarrow> 'h heap \<Rightarrow> error + 'h heap" where
  "hregister_all [] r h = Inr h"
| "hregister_all (x # xs) r h =
     (case hregister x r h of Inl e \<Rightarrow> Inl e | Inr h' \<Rightarrow> hregister_all xs r h')"

text \<open>
  A client's use of the package with a builder that is used again after \<^verbatim>\<open>Build\<close>:
  \<^verbatim>\<open>r := New()\<close>, the registrations \<open>before\<close>, \<^verbatim>\<open>h := r.Build()\<close>, the
  registrations \<open>after\<close> on \<^verbatim>\<open>r\<close>, then a request served by \<^verbatim>\<open>h\<close>.
\<close>

definition serve_snapshot ::
  "'h registration list \<Rightarrow> 'h registration list \<Rightarrow> string \<Rightarrow> string \<Rightarrow> error + 'h response" where
  "serve_snapshot before after method url_path =
     (case hNew of (h0, b) \<Rightarrow>
        (case hregister_all before b h0 of
           Inl e \<Rightarrow> Inl e
         | Inr h \<Rightarrow>
             (case hBuild h b of (h1, s) \<Rightarrow>
                (case hregister_all after b h1 of
                   Inl e \<Rightarrow> Inl e
                 | Inr h2 \<Rightarrow> hServeHTTP h2 s method url_path))))"

text \<open>
  What holds of every heap that registrations on a new builder produce: references point
  to allocated cells, no map holds the builder's own node, and the cells not yet
  allocated are empty.
\<close>

definition heap_inv :: "addr \<Rightarrow> 'h heap \<Rightarrow> bool" where
  "heap_inv b h \<longleftrightarrow>
     b < fresh h \<and>
     (\<forall>a m. node_ch (nodes h a) = Some m \<longrightarrow> m < fresh h) \<and>
     (\<forall>a ro. node_rt (nodes h a) = Some ro \<longrightarrow> ro < fresh h) \<and>
     (\<forall>m k c. maps h m k = Some c \<longrightarrow> c < fresh h \<and> c \<noteq> b) \<and>
     (\<forall>a. fresh h \<le> a \<longrightarrow> nodes h a = empty_node \<and> maps h a = Map.empty)"

text \<open>
  After \<^verbatim>\<open>Build\<close>, with \<open>f\<close> the first address free at that moment: the builder owns its
  own node and every cell from \<open>f\<close> on. \<open>frame_inv\<close>: the cells it does not own are as
  they were in \<open>h1\<close>. \<open>owned_closed\<close>: what it owns refers only to what it owns.
\<close>

definition owned :: "addr \<Rightarrow> addr \<Rightarrow> addr \<Rightarrow> bool" where
  "owned b f a \<longleftrightarrow> a = b \<or> f \<le> a"

definition frame_inv :: "addr \<Rightarrow> addr \<Rightarrow> 'h heap \<Rightarrow> 'h heap \<Rightarrow> bool" where
  "frame_inv b f h1 h \<longleftrightarrow>
     (\<forall>a. \<not> owned b f a \<longrightarrow> nodes h a = nodes h1 a) \<and>
     (\<forall>m. m < f \<longrightarrow> maps h m = maps h1 m) \<and>
     (\<forall>ro. ro < f \<longrightarrow> routes h ro = routes h1 ro)"

definition owned_closed :: "addr \<Rightarrow> addr \<Rightarrow> 'h heap \<Rightarrow> bool" where
  "owned_closed b f h \<longleftrightarrow>
     f \<le> fresh h \<and>
     (\<forall>a m. owned b f a \<and> node_ch (nodes h a) = Some m \<longrightarrow> f \<le> m) \<and>
     (\<forall>a ro. owned b f a \<and> node_rt (nodes h a) = Some ro \<longrightarrow> f \<le> ro) \<and>
     (\<forall>m k c. f \<le> m \<and> maps h m k = Some c \<longrightarrow> f \<le> c)"

text \<open>
  Two heaps that agree on a set \<open>P\<close> of nodes and on their maps, \<open>P\<close> being closed under
  children: the walks from a node of \<open>P\<close> agree and end in \<open>P\<close>.
\<close>

definition agree_on :: "addr set \<Rightarrow> 'h heap \<Rightarrow> 'h heap \<Rightarrow> bool" where
  "agree_on P h h' \<longleftrightarrow>
     (\<forall>a \<in> P. nodes h' a = nodes h a \<and>
        (\<forall>m. node_ch (nodes h a) = Some m \<longrightarrow>
           maps h' m = maps h m \<and> (\<forall>k c. maps h m k = Some c \<longrightarrow> c \<in> P)))"

text \<open>The response, read off the result of a walk.\<close>

definition respond :: "'h heap \<Rightarrow> Verb \<Rightarrow> addr option \<times> string list \<Rightarrow> error + 'h response" where
  "respond h v res =
     (case res of
        (None, names) \<Rightarrow> Inr (Status StatusNotFound)
      | (Some t, names) \<Rightarrow>
          (case node_rt (nodes h t) of
             None \<Rightarrow> Inr (Status StatusNotFound)
           | Some ro \<Rightarrow>
               (case routes h ro v of
                  Some hdl \<Rightarrow> Inr (Invoked hdl names)
                | None \<Rightarrow> Inr (Status StatusMethodNotAllowed))))"

text \<open>
  The tree that a heap holds at the address \<open>a\<close>, unfolded to the depth \<open>d\<close>: the value
  on which \<open>find\<close> and \<open>ServeHTTP\<close> above work.
\<close>

fun heap_tree :: "nat \<Rightarrow> 'h heap \<Rightarrow> addr \<Rightarrow> 'h router" where
  "heap_tree 0 h a =
     Router Map.empty (map_option (\<lambda>ro. Route (routes h ro)) (node_rt (nodes h a)))"
| "heap_tree (Suc d) h a =
     Router (\<lambda>k. map_option (heap_tree d h) (child h a k))
       (map_option (\<lambda>ro. Route (routes h ro)) (node_rt (nodes h a)))"

section \<open>Facts about segment keys, place and find\<close>

lemma place_empty [simp]: "place r [] f = f r"
  by (simp add: place.simps)

lemma place_nonempty:
  "path \<noteq> [] \<Longrightarrow>
   place r path f =
     Router ((ch r)(seg_key path \<mapsto>
        place (case ch r (seg_key path) of None \<Rightarrow> Router Map.empty None | Some c \<Rightarrow> c)
          (seg_rest path) f)) (rt r)"
  by (subst place.simps) (simp add: Let_def)

lemma find_empty [simp]: "find r [] names = (Some r, names)"
  by (simp add: find.simps)

lemma find_nonempty:
  "path \<noteq> [] \<Longrightarrow>
   find r path names =
     (let k = seg_key path;
          p1 = (case ch r k of None \<Rightarrow> (None, names) | Some c \<Rightarrow> find c (seg_rest path) names)
      in if routed (fst p1) then p1
         else
           (case ch r (wild_key k) of
              None \<Rightarrow> (None, snd p1)
            | Some c \<Rightarrow>
                let p2 = find c (seg_rest path) (snd p1 @ [TrimRight_slash k])
                in if routed (fst p2) then p2 else (None, snd p2)))"
  by (subst find.simps) (auto simp: Let_def split: prod.splits option.splits)

text \<open>The equations that evaluate the model on a concrete tree and path.\<close>

lemmas eval_simps = place_nonempty find_nonempty seg_key_def seg_rest_def strings_Index_slash_def
  wild_key_def TrimRight_slash_def routed_def set_verb_def Handle_def HandleAll_def
  ServeHTTP_def slice_from_1_def verbs_def all_verbs_def new_router_def Let_def
  StatusNotFound_def StatusMethodNotAllowed_def serve_after_def

lemma takeWhile_no_slash:
  "CHR ''/'' \<notin> set s \<Longrightarrow> takeWhile (\<lambda>c. c \<noteq> CHR ''/'') (s @ CHR ''/'' # rest) = s"
  by (induction s) auto

lemma seg_key_slash:
  assumes "CHR ''/'' \<notin> set s"
  shows "seg_key (s @ CHR ''/'' # rest) = s @ ''/''"
proof -
  have "nat (int (length s) + 1) = Suc (length s)" by simp
  with assms show ?thesis
    by (simp add: seg_key_def strings_Index_slash_def takeWhile_no_slash Let_def)
qed

lemma seg_rest_slash: "CHR ''/'' \<notin> set s \<Longrightarrow> seg_rest (s @ CHR ''/'' # rest) = rest"
  by (simp add: seg_rest_def seg_key_slash)

lemma seg_key_final: "CHR ''/'' \<notin> set s \<Longrightarrow> seg_key s = s"
  by (simp add: seg_key_def strings_Index_slash_def)

lemma seg_rest_final: "CHR ''/'' \<notin> set s \<Longrightarrow> seg_rest s = []"
  by (simp add: seg_rest_def seg_key_final)

lemma TrimRight_slash_key: "CHR ''/'' \<notin> set s \<Longrightarrow> TrimRight_slash (s @ ''/'') = s"
  by (cases s rule: rev_cases) (auto simp: TrimRight_slash_def)

lemma TrimRight_slash_final: "CHR ''/'' \<notin> set s \<Longrightarrow> TrimRight_slash s = s"
  by (cases s rule: rev_cases) (auto simp: TrimRight_slash_def)

lemma wild_key_final: "CHR ''/'' \<notin> set s \<Longrightarrow> s \<noteq> [] \<Longrightarrow> wild_key s = ''*''"
  by (cases s rule: rev_cases) (auto simp: wild_key_def)

lemma find_rel_shorter: "find_rel (c, p, ns) (r, path, names) \<Longrightarrow> length p < length path"
  by (erule find_rel.cases) (auto simp: seg_rest_shorter)

lemma place_rel_shorter: "place_rel (c, p, g) (r, path, f) \<Longrightarrow> length p < length path"
  by (erule place_rel.cases) (auto simp: seg_rest_shorter)

lemma seg_key_ab: "seg_key ''a/b'' = ''a/''"
  by (simp add: seg_key_def strings_Index_slash_def)

lemma seg_rest_ab: "seg_rest ''a/b'' = ''b''"
  by (simp add: seg_rest_def seg_key_ab)

section \<open>Termination of find and place\<close>

text \<open>
  C10. \<open>find\<close> and \<open>place\<close> terminate on every tree and every path: every input is in
  the domain of each function (the accessible part of its call relation), every recursive
  call of either (\<open>find_rel\<close>, \<open>place_rel\<close>: callee, then caller) is made on a strictly
  shorter path, and the segment key of a non-empty path is non-empty.
\<close>

theorem find_place_terminate:
  "find_dom (r, path, names) \<and> place_dom (r, path, f) \<and>
   (\<forall>c p ns. find_rel (c, p, ns) (r, path, names) \<longrightarrow> length p < length path) \<and>
   (\<forall>c p g. place_rel (c, p, g) (r, path, f) \<longrightarrow> length p < length path) \<and>
   (path \<noteq> [] \<longrightarrow> seg_key path \<noteq> [])"
proof -
  have "find_dom (r, path, names)"
  proof (induction "length path" arbitrary: r path names rule: less_induct)
    case less
    show ?case
    proof (rule accpI)
      fix y assume rel: "find_rel y (r, path, names)"
      obtain c p ns where y: "y = (c, p, ns)" by (cases y)
      from rel y have "length p < length path" by (simp add: find_rel_shorter)
      then show "find_dom y" unfolding y by (rule less)
    qed
  qed
  moreover have "place_dom (r, path, f)"
  proof (induction "length path" arbitrary: r path f rule: less_induct)
    case less
    show ?case
    proof (rule accpI)
      fix y assume rel: "place_rel y (r, path, f)"
      obtain c p g where y: "y = (c, p, g)" by (cases y)
      from rel y have "length p < length path" by (simp add: place_rel_shorter)
      then show "place_dom y" unfolding y by (rule less)
    qed
  qed
  ultimately show ?thesis
    by (auto simp: seg_key_nonempty dest: find_rel_shorter place_rel_shorter)
qed

theorem find_place_terminate_witness:
  "find_rel (new_router :: nat router, ''b'', [])
     (Router [''a/'' \<mapsto> new_router] None, ''a/b'', []) \<and>
   place_rel (new_router :: nat router, ''b'', id) (new_router, ''a/b'', id) \<and>
   length ''b'' < length ''a/b'' \<and> seg_key ''a/b'' \<noteq> []"
proof -
  let ?r = "Router [''a/'' \<mapsto> new_router] None :: nat router"
  have f: "find_rel (new_router :: nat router, ''b'', []) (?r, ''a/b'', [])"
    using find_rel.intros(1) [of "''a/b''" "''a/''" ?r new_router "[]"]
    by (simp add: seg_key_ab seg_rest_ab)
  have p: "place_rel (new_router :: nat router, ''b'', id) (new_router, ''a/b'', id)"
    using place_rel.intros [of "''a/b''" "''a/''" new_router new_router id]
    by (simp add: seg_key_ab seg_rest_ab new_router_def)
  from f p find_place_terminate [of ?r "''a/b''" "[]" id]
       find_place_terminate [of new_router "''a/b''" "[]" id]
  show ?thesis by blast
qed

section \<open>The matcher\<close>

text \<open>
  C1. At a node with a concrete child for the next segment key, \<open>find\<close> returns the
  result of the recursion into that child at once when it is a node owning a route; when
  it is \<^verbatim>\<open>nil\<close> or a node without a route, \<open>find\<close> goes on to the wildcard child of the
  same node, keyed \<^verbatim>\<open>*/\<close> when the segment key ends in a slash and \<^verbatim>\<open>*\<close> otherwise,
  and the result is then decided by that child alone.
\<close>

theorem find_concrete_first:
  assumes "path \<noteq> []"
    and "ch r (seg_key path) = Some c"
    and "find c (seg_rest path) names = (res, names1)"
    and "w = (if last (seg_key path) = CHR ''/'' then ''*/'' else ''*'')"
  shows "(routed res \<longrightarrow> find r path names = (res, names1)) \<and>
         (\<not> routed res \<longrightarrow>
            find r path names =
              (case ch r w of
                 None \<Rightarrow> (None, names1)
               | Some wc \<Rightarrow>
                   (case find wc (seg_rest path) (names1 @ [TrimRight_slash (seg_key path)]) of
                      (res2, names2) \<Rightarrow> (if routed res2 then res2 else None, names2))))"
  using assms
  by (auto simp: find_nonempty wild_key_def Let_def split: option.splits prod.splits)

text \<open>
  The witness is the node \<^verbatim>\<open>a/\<close> of the tree of GET \<^verbatim>\<open>/a/b/c\<close> and GET \<^verbatim>\<open>/a/*/\<close>:
  \<^verbatim>\<open>b/c\<close> is decided by the concrete child, and \<^verbatim>\<open>b/\<close> reaches the unrouted prefix node
  \<^verbatim>\<open>b/\<close> and falls through to \<^verbatim>\<open>*/\<close>.
\<close>

theorem find_concrete_first_witness:
  "find (Router [''b/'' \<mapsto> Router [''c'' \<mapsto> Router Map.empty (Some (Route [Get \<mapsto> 1::nat]))] None,
                 ''*/'' \<mapsto> Router Map.empty (Some (Route [Get \<mapsto> 2]))] None) ''b/c'' []
     = (Some (Router Map.empty (Some (Route [Get \<mapsto> 1]))), []) \<and>
   find (Router [''b/'' \<mapsto> Router [''c'' \<mapsto> Router Map.empty (Some (Route [Get \<mapsto> 1::nat]))] None,
                 ''*/'' \<mapsto> Router Map.empty (Some (Route [Get \<mapsto> 2]))] None) ''b/'' []
     = (Some (Router Map.empty (Some (Route [Get \<mapsto> 2]))), [''b''])"
proof -
  let ?leaf1 = "Router Map.empty (Some (Route [Get \<mapsto> 1::nat]))"
  let ?leaf2 = "Router Map.empty (Some (Route [Get \<mapsto> 2::nat]))"
  let ?b = "Router [''c'' \<mapsto> ?leaf1] None"
  let ?r = "Router [''b/'' \<mapsto> ?b, ''*/'' \<mapsto> ?leaf2] None"
  have k1: "seg_key ''b/c'' = ''b/''" "seg_rest ''b/c'' = ''c''"
    by (simp_all add: seg_key_def seg_rest_def strings_Index_slash_def)
  have k2: "seg_key ''b/'' = ''b/''" "seg_rest ''b/'' = []"
    by (simp_all add: seg_key_def seg_rest_def strings_Index_slash_def)
  have c1: "find ?b ''c'' [] = (Some ?leaf1, [])"
    by (simp add: eval_simps)
  have a: "find ?r ''b/c'' [] = (Some ?leaf1, [])"
    using find_concrete_first [of "''b/c''" ?r ?b "[]" "Some ?leaf1" "[]" "''*/''"] c1
    by (simp add: k1 routed_def)
  have b: "find ?r ''b/'' [] = (Some ?leaf2, [''b''])"
    using find_concrete_first [of "''b/''" ?r ?b "[]" "Some ?b" "[]" "''*/''"]
    by (simp add: k2 routed_def TrimRight_slash_def)
  from a b show ?thesis by simp
qed

text \<open>
  C4. The claim that a wildcard never matches an empty segment fails: the request
  \<^verbatim>\<open>/a//b\<close> against GET \<^verbatim>\<open>/a/*/b\<close> has the segment key \<^verbatim>\<open>/\<close> at the second
  position, which ends in a slash, so the child \<^verbatim>\<open>*/\<close> takes it and the handler is
  called with the capture \<^verbatim>\<open>""\<close>.
\<close>

theorem wildcard_matches_empty_segment:
  "serve_after [RHandle Get ''/a/*/b'' (Some (1::nat))] ''GET'' ''/a//b'' = Inr (Invoked 1 [''''])"
  by (simp add: eval_simps)

text \<open>
  C4, as the code has it. A wildcard child consumes exactly one segment key of the request
  path. For a segment \<open>s\<close> (a string without a slash) that is followed by a slash, the
  child \<^verbatim>\<open>*/\<close> is entered with the path after that slash and the capture \<open>s\<close>, and
  \<open>s\<close> may be empty. For a final segment \<open>s\<close>, which is never empty, the child \<^verbatim>\<open>*\<close>
  is the result, with the capture \<open>s\<close>. (Both are stated at a node without a concrete
  child for the key, where the wildcard alone decides.)
\<close>

theorem wildcard_consumes_one_segment:
  assumes "CHR ''/'' \<notin> set s"
  shows "(ch r (s @ ''/'') = None \<and> ch r ''*/'' = Some w \<longrightarrow>
            find r (s @ ''/'' @ rest) names =
              (case find w rest (names @ [s]) of
                 (res, ns) \<Rightarrow> (if routed res then res else None, ns))) \<and>
         (s \<noteq> [] \<and> ch r s = None \<and> ch r ''*'' = Some w \<longrightarrow>
            find r s names = (if rt w \<noteq> None then Some w else None, names @ [s]))"
proof (intro conjI impI)
  assume a: "ch r (s @ ''/'') = None \<and> ch r ''*/'' = Some w"
  show "find r (s @ ''/'' @ rest) names =
          (case find w rest (names @ [s]) of (res, ns) \<Rightarrow> (if routed res then res else None, ns))"
    using a assms
    by (simp add: find_nonempty seg_key_slash seg_rest_slash TrimRight_slash_key
        wild_key_def routed_def Let_def split: prod.splits)
next
  assume a: "s \<noteq> [] \<and> ch r s = None \<and> ch r ''*'' = Some w"
  then show "find r s names = (if rt w \<noteq> None then Some w else None, names @ [s])"
    using assms
    by (simp add: find_nonempty seg_key_final seg_rest_final TrimRight_slash_final
        wild_key_final routed_def Let_def)
qed

theorem wildcard_consumes_one_segment_witness:
  "find (Router [''*/'' \<mapsto> Router [''b'' \<mapsto> Router Map.empty (Some (Route [Get \<mapsto> 1::nat]))] None] None)
     ''/b'' [] = (Some (Router Map.empty (Some (Route [Get \<mapsto> 1]))), ['''']) \<and>
   find (Router [''*'' \<mapsto> Router Map.empty (Some (Route [Get \<mapsto> 1::nat]))] None) ''b'' []
     = (Some (Router Map.empty (Some (Route [Get \<mapsto> 1]))), [''b''])"
proof -
  let ?leaf = "Router Map.empty (Some (Route [Get \<mapsto> 1::nat]))"
  let ?w = "Router [''b'' \<mapsto> ?leaf] None"
  have inner: "find ?w ''b'' [''''] = (Some ?leaf, [''''])"
    by (simp add: eval_simps)
  have a: "find (Router [''*/'' \<mapsto> ?w] None) ''/b'' [] = (Some ?leaf, [''''])"
    using wildcard_consumes_one_segment [of "[]" "Router [''*/'' \<mapsto> ?w] None" ?w "''b''" "[]"] inner
    by (simp add: routed_def)
  have b: "find (Router [''*'' \<mapsto> ?leaf] None) ''b'' [] = (Some ?leaf, [''b''])"
    using wildcard_consumes_one_segment [of "''b''" "Router [''*'' \<mapsto> ?leaf] None" ?leaf "[]" "[]"]
    by simp
  from a b show ?thesis by simp
qed

section \<open>Captures\<close>

text \<open>
  The spec's example for C2 holds: GET \<^verbatim>\<open>/a/*/*/*\<close> and the request
  \<^verbatim>\<open>/a/foo/bar/baz\<close> give the captures foo, bar, baz.
\<close>

lemma captures_in_path_order:
  "serve_after [RHandle Get ''/a/*/*/*'' (Some (1::nat))] ''GET'' ''/a/foo/bar/baz''
     = Inr (Invoked 1 [''foo'', ''bar'', ''baz''])"
  by (simp add: eval_simps)

text \<open>
  C2, where the code departs from it. With GET \<^verbatim>\<open>/a/*/x\<close> and GET \<^verbatim>\<open>/*/b/y\<close>
  registered, the request \<^verbatim>\<open>/a/b/y\<close> first walks \<^verbatim>\<open>a/\<close>, where the wildcard \<^verbatim>\<open>*/\<close>
  appends \<^verbatim>\<open>b\<close> and then fails on \<^verbatim>\<open>y\<close>; the root's wildcard \<^verbatim>\<open>*/\<close> then appends
  \<^verbatim>\<open>a\<close> and matches \<^verbatim>\<open>b/y\<close>. The handler of \<^verbatim>\<open>/*/b/y\<close> is called with the captures
  b, a: the first is the segment of the failed wildcard branch, and only \<^verbatim>\<open>a\<close> was
  consumed by a wildcard on the matched path.
\<close>

theorem failed_wildcard_capture_stays:
  "serve_after [RHandle Get ''/a/*/x'' (Some (1::nat)), RHandle Get ''/*/b/y'' (Some 2)]
     ''GET'' ''/a/b/y'' = Inr (Invoked 2 [''b'', ''a''])"
  by (simp add: eval_simps)

section \<open>The dispatcher\<close>

text \<open>
  The outcomes of \<open>ServeHTTP\<close> where it reaches them: an unknown method gives 405 whatever
  the path; a known method and a non-empty URL path give 404 when the walk ends in no
  node or in a node without a route, 405 when the verb's slot is empty, and the call of
  the handler with the names otherwise.
\<close>

lemma ServeHTTP_outcomes:
  "(verbs method = None \<longrightarrow> ServeHTTP r method url_path = Inr (Status 405)) \<and>
   (verbs method = Some v \<and> url_path \<noteq> [] \<longrightarrow>
      ServeHTTP r method url_path =
        (case find r (drop 1 url_path) [] of
           (t, names) \<Rightarrow>
             if \<not> routed t then Inr (Status 404)
             else (case vb (the (rt (the t))) v of
                     None \<Rightarrow> Inr (Status 405)
                   | Some h \<Rightarrow> Inr (Invoked h names))))"
  by (auto simp: ServeHTTP_def slice_from_1_def routed_def StatusNotFound_def
      StatusMethodNotAllowed_def split: option.splits prod.splits)

lemma ServeHTTP_responds:
  "verbs method = None \<or> url_path \<noteq> [] \<Longrightarrow> \<exists>resp. ServeHTTP r method url_path = Inr resp"
  by (auto simp: ServeHTTP_def slice_from_1_def split: option.splits prod.splits)

text \<open>
  C6. A request with a known method and the empty URL path makes \<open>ServeHTTP\<close> panic:
  \<^verbatim>\<open>req.URL.Path[1:]\<close> slices the empty string from 1. No response is written and no
  handler is called.
\<close>

theorem ServeHTTP_empty_path_panics:
  "ServeHTTP r ''GET'' [] = Inl SliceBoundsPanic"
  by (simp add: ServeHTTP_def verbs_def slice_from_1_def)

text \<open>
  C3. The same request on a router with GET \<^verbatim>\<open>/a\<close> registered: the dispatcher produces
  none of the outcomes 405, 404 or a handler call, but the panic.
\<close>

theorem dispatch_empty_path_no_outcome:
  "serve_after [RHandle Get ''/a'' (Some (1::nat))] ''GET'' [] = Inl SliceBoundsPanic"
  by (simp add: eval_simps)

section \<open>Facts about registration\<close>

lemma segments_empty [simp]: "segments [] = []"
  by (simp add: segments.simps)

lemma segments_nonempty: "p \<noteq> [] \<Longrightarrow> segments p = seg_key p # segments (seg_rest p)"
  by (subst segments.simps) simp

lemma node_at_new: "node_at (Router Map.empty None) ks = (if ks = [] then Some (Router Map.empty None) else None)"
  by (cases ks) auto

lemma node_or_new_child:
  "node_or_new r (k # ks) =
     node_or_new (case ch r k of None \<Rightarrow> Router Map.empty None | Some c \<Rightarrow> c) ks"
  by (auto simp: node_or_new_def node_at_new split: option.splits)

lemma rt_at_place_same:
  "rt_at (place r p f) (segments p) = Some (rt (f (node_or_new r (segments p))))"
proof (induction r p f rule: place.induct)
  case (1 r path f)
  show ?case
  proof (cases "path = []")
    case True
    then show ?thesis by (simp add: rt_at_def node_or_new_def)
  next
    case False
    with 1 show ?thesis
      by (simp add: place_nonempty segments_nonempty rt_at_def node_or_new_child)
  qed
qed

lemma rt_at_place_other:
  "\<forall>n. ch (f n) = ch n \<Longrightarrow> ks \<noteq> segments p \<Longrightarrow>
   rt_at (place r p f) ks = rt_at r ks \<or>
   (rt_at (place r p f) ks = Some None \<and> rt_at r ks = None)"
proof (induction r p f arbitrary: ks rule: place.induct)
  case (1 r path f)
  note keep = \<open>\<forall>n. ch (f n) = ch n\<close>
  show ?case
  proof (cases "path = []")
    case True
    with 1(3) show ?thesis
      by (cases ks) (auto simp: rt_at_def keep)
  next
    case False
    show ?thesis
    proof (cases ks)
      case Nil
      with False show ?thesis by (simp add: place_nonempty rt_at_def)
    next
      case (Cons k ks')
      show ?thesis
      proof (cases "k = seg_key path")
        case True
        with Cons 1(3) False have "ks' \<noteq> segments (seg_rest path)"
          by (simp add: segments_nonempty)
        from 1(1) [OF False refl refl keep this] True Cons False show ?thesis
          by (auto simp: place_nonempty rt_at_def node_at_new split: option.splits if_splits)
      next
        case False
        with Cons \<open>path \<noteq> []\<close> show ?thesis
          by (simp add: place_nonempty rt_at_def)
      qed
    qed
  qed
qed


lemma place_place: "place (place r p f) p g = place r p (g \<circ> f)"
proof (induction r p f rule: place.induct)
  case (1 r path f)
  show ?case
  proof (cases "path = []")
    case True
    then show ?thesis by simp
  next
    case False
    with 1 show ?thesis
      by (simp add: place_nonempty)
  qed
qed

lemma ch_set_verb [simp]: "ch (set_verb v h n) = ch n"
  by (simp add: set_verb_def)

lemma rt_set_verb:
  "rt (set_verb v h n) =
     Some (Route ((case rt n of None \<Rightarrow> (\<lambda>v. None) | Some ro \<Rightarrow> vb ro)(v := h)))"
  by (simp add: set_verb_def split: option.splits)


lemma fold_set_verb:
  "vs \<noteq> [] \<Longrightarrow>
   fold (\<lambda>v. set_verb v h) vs n =
     Router (ch n)
       (Some (Route (\<lambda>v. if v \<in> set vs then h
                          else (case rt n of None \<Rightarrow> None | Some ro \<Rightarrow> vb ro v))))"
proof (induction vs arbitrary: n)
  case Nil
  then show ?case by simp
next
  case (Cons a vs)
  show ?case
  proof (cases "vs = []")
    case True
    then show ?thesis
      by (auto simp: set_verb_def fun_eq_iff split: option.splits)
  next
    case False
    from Cons.IH [OF False, of "set_verb a h n"] show ?thesis
      by (auto simp: rt_set_verb fun_eq_iff split: option.splits)
  qed
qed

lemma fold_set_verb_cong:
  assumes "vs \<noteq> []" and "set vs = set ws"
  shows "fold (\<lambda>v. set_verb v h) vs = fold (\<lambda>v. set_verb v h) ws"
proof -
  from assms have "ws \<noteq> []" by auto
  with assms show ?thesis
    by (intro ext) (simp add: fold_set_verb)
qed

lemma register_all_Handle:
  "path \<noteq> [] \<Longrightarrow> vs \<noteq> [] \<Longrightarrow>
   register_all (map (\<lambda>v. RHandle v path h) vs) r =
     Inr (place r (drop 1 path) (fold (\<lambda>v. set_verb v h) vs))"
proof (induction vs arbitrary: r)
  case Nil
  then show ?case by simp
next
  case (Cons a vs)
  show ?case
  proof (cases "vs = []")
    case True
    with Cons.prems show ?thesis
      by (simp add: Handle_def slice_from_1_def)
  next
    case False
    with Cons show ?thesis
      by (simp add: Handle_def slice_from_1_def place_place comp_def)
  qed
qed

lemma register_all_Handle_empty_path:
  "vs \<noteq> [] \<Longrightarrow> register_all (map (\<lambda>v. RHandle v [] h) vs) r = Inl SliceBoundsPanic"
  by (cases vs) (simp_all add: Handle_def slice_from_1_def)




lemma routes_invI:
  assumes "\<And>ks n. node_at t ks = Some n \<Longrightarrow> route_populated n \<and> (rt n = None \<or> ks \<in> S)"
  shows "routes_inv S t"
  using assms by (auto simp: routes_inv_def split: option.splits)

lemma routes_invD:
  "routes_inv S t \<Longrightarrow> node_at t ks = Some n \<Longrightarrow> route_populated n \<and> (rt n = None \<or> ks \<in> S)"
  by (auto simp: routes_inv_def split: option.splits dest: spec [of _ ks])

lemma route_populated_rt: "rt n = rt m \<Longrightarrow> route_populated n = route_populated m"
  by (simp add: route_populated_def)

lemma all_verbs_complete: "v \<in> set all_verbs"
  by (cases v) (simp_all add: all_verbs_def)

lemma route_populated_set_verb: "route_populated (set_verb v (Some h) n)"
  using all_verbs_complete [of v]
  by (auto simp: route_populated_def rt_set_verb list_ex_iff)

lemma route_populated_fold: "route_populated (fold (\<lambda>v. set_verb v (Some h)) all_verbs n)"
proof -
  have "all_verbs \<noteq> []" by (simp add: all_verbs_def)
  then show ?thesis
    by (simp add: fold_set_verb route_populated_def list_ex_iff all_verbs_complete)
qed

lemma ch_fold_set_verb: "ch (fold (\<lambda>v. set_verb v h) vs n) = ch n"
  by (induction vs arbitrary: n) simp_all

lemma routes_inv_place:
  assumes inv: "routes_inv S r"
    and keep: "\<forall>n. ch (f n) = ch n"
    and pop: "\<forall>n. route_populated (f n)"
  shows "routes_inv (insert (segments p) S) (place r p f)"
proof (rule routes_invI)
  fix ks n
  assume at: "node_at (place r p f) ks = Some n"
  show "route_populated n \<and> (rt n = None \<or> ks \<in> insert (segments p) S)"
  proof (cases "ks = segments p")
    case True
    with at rt_at_place_same [of r p f] have "rt n = rt (f (node_or_new r (segments p)))"
      by (simp add: rt_at_def)
    with pop True show ?thesis
      by (simp add: route_populated_rt [of n "f (node_or_new r (segments p))"])
  next
    case False
    from rt_at_place_other [OF keep False, of r] at
    consider "rt n = None" | m where "node_at r ks = Some m" "rt m = rt n"
      by (cases "node_at r ks") (auto simp: rt_at_def)
    then show ?thesis
    proof cases
      case 1
      then show ?thesis by (simp add: route_populated_def)
    next
      case 2
      with routes_invD [OF inv 2(1)] show ?thesis
        by (auto simp: route_populated_rt [of n m])
    qed
  qed
qed

lemma routes_inv_register:
  assumes "routes_inv S r" and "reg_handler x \<noteq> None" and "register x r = Inr r'"
  shows "routes_inv (insert (segments (drop 1 (reg_path x))) S) r'"
proof (cases x)
  case (RHandle verb path h)
  with assms(2) obtain g where h: "h = Some g" by auto
  from assms(3) RHandle h have r': "r' = place r (drop 1 path) (set_verb verb (Some g))"
    by (auto simp: Handle_def slice_from_1_def split: if_splits)
  show ?thesis
    unfolding r' RHandle reg_path.simps
    by (rule routes_inv_place [OF assms(1)]) (simp_all add: route_populated_set_verb)
next
  case (RHandleAll path h)
  with assms(2) obtain g where h: "h = Some g" by auto
  from assms(3) RHandleAll h
  have r': "r' = place r (drop 1 path) (fold (\<lambda>v. set_verb v (Some g)) all_verbs)"
    by (auto simp: HandleAll_def slice_from_1_def split: if_splits)
  show ?thesis
    unfolding r' RHandleAll reg_path.simps
    by (rule routes_inv_place [OF assms(1)]) (simp_all add: route_populated_fold ch_fold_set_verb)
qed

lemma routes_inv_register_all:
  "routes_inv S r \<Longrightarrow> \<forall>x \<in> set regs. reg_handler x \<noteq> None \<Longrightarrow>
   register_all regs r = Inr t \<Longrightarrow>
   routes_inv (S \<union> (\<lambda>x. segments (drop 1 (reg_path x))) ` set regs) t"
proof (induction regs arbitrary: r S)
  case Nil
  then show ?case by simp
next
  case (Cons x regs)
  from Cons.prems(3) obtain r' where x: "register x r = Inr r'"
    and rest: "register_all regs r' = Inr t"
    by (auto split: sum.splits)
  from Cons.prems(2) have hx: "reg_handler x \<noteq> None" and hs: "\<forall>x \<in> set regs. reg_handler x \<noteq> None"
    by simp_all
  from Cons.IH [OF routes_inv_register [OF Cons.prems(1) hx x] hs rest]
  show ?case by (simp add: Un_commute insert_commute)
qed

lemma routes_inv_new: "routes_inv {} new_router"
  by (rule routes_invI) (auto simp: new_router_def node_at_new route_populated_def split: if_splits)

section \<open>Registration\<close>

text \<open>
  C9. \<open>HandleAll path h\<close> leaves the builder in exactly the state that calling
  \<open>Handle v path h\<close> for the verbs of a list \<open>vs\<close> leaves, one call after the other,
  whenever \<open>vs\<close> holds each of the seven verbs (in any order); on the empty path both
  panic.
\<close>

theorem HandleAll_is_Handle_each:
  assumes "set vs = set all_verbs"
  shows "HandleAll path h r = register_all (map (\<lambda>v. RHandle v path h) vs) r"
proof -
  from assms have ne: "vs \<noteq> []" by (auto simp: all_verbs_def)
  show ?thesis
  proof (cases "path = []")
    case True
    with ne show ?thesis
      by (simp add: register_all_Handle_empty_path HandleAll_def slice_from_1_def)
  next
    case False
    with ne assms show ?thesis
      by (simp add: register_all_Handle HandleAll_def slice_from_1_def
          fold_set_verb_cong [OF ne assms])
  qed
qed

theorem HandleAll_is_Handle_each_witness:
  "HandleAll ''/a/*'' (Some (1::nat)) new_router =
     register_all
       [RHandle Delete ''/a/*'' (Some 1), RHandle Get ''/a/*'' (Some 1),
        RHandle Head ''/a/*'' (Some 1), RHandle Options ''/a/*'' (Some 1),
        RHandle Patch ''/a/*'' (Some 1), RHandle Post ''/a/*'' (Some 1),
        RHandle Put ''/a/*'' (Some 1)] new_router"
  using HandleAll_is_Handle_each [of all_verbs "''/a/*''" "Some (1::nat)" new_router]
  by (simp add: all_verbs_def)




text \<open>
  C7. The claim fails for a \<^verbatim>\<open>nil\<close> handler, which the type \<^verbatim>\<open>Handler\<close> admits:
  \<^verbatim>\<open>Handle(Get, "/a", nil)\<close> gives the node \<^verbatim>\<open>a\<close> a route, and none of its slots
  is populated.
\<close>

theorem nil_handler_route_unpopulated:
  "register_all [RHandle Get ''/a'' (None :: nat option)] new_router =
     Inr (Router [''a'' \<mapsto> Router Map.empty (Some (Route (\<lambda>v. None)))] None) \<and>
   node_at (Router [''a'' \<mapsto> Router Map.empty (Some (Route (\<lambda>v. None :: nat option)))] None) [''a'']
     = Some (Router Map.empty (Some (Route (\<lambda>v. None)))) \<and>
   rt (Router Map.empty (Some (Route (\<lambda>v. None :: nat option)))) \<noteq> None \<and>
   \<not> route_populated (Router Map.empty (Some (Route (\<lambda>v. None :: nat option))))"
  by (simp add: eval_simps route_populated_def)

text \<open>
  C7, as the code has it. After any run of \<open>Handle\<close> and \<open>HandleAll\<close> calls on a new
  builder in which every handler is non-\<^verbatim>\<open>nil\<close>, every node of the tree that has a route
  has a populated verb slot, and a node has a route only if its key list is that of a
  registered path: the nodes that exist only as prefixes of registered paths have none.
\<close>

theorem registered_routes_populated:
  assumes "\<forall>x \<in> set regs. reg_handler x \<noteq> None"
    and "register_all regs new_router = Inr t"
    and "node_at t ks = Some n"
  shows "route_populated n \<and>
         (rt n \<noteq> None \<longrightarrow> (\<exists>x \<in> set regs. ks = segments (drop 1 (reg_path x))))"
  using routes_invD [OF routes_inv_register_all [OF routes_inv_new assms(1,2)] assms(3)]
  by auto

theorem registered_routes_populated_witness:
  "register_all [RHandle Get ''/a/b'' (Some (1::nat))] new_router =
     Inr (Router [''a/'' \<mapsto> Router [''b'' \<mapsto> Router Map.empty (Some (Route [Get \<mapsto> 1]))] None] None) \<and>
   route_populated (Router [''b'' \<mapsto> Router Map.empty (Some (Route [Get \<mapsto> 1::nat]))] None) \<and>
   rt (Router [''b'' \<mapsto> Router Map.empty (Some (Route [Get \<mapsto> 1::nat]))] None) = None \<and>
   route_populated (Router Map.empty (Some (Route [Get \<mapsto> 1::nat]))) \<and>
   [''a/'', ''b''] = segments (drop 1 ''/a/b'')"
proof -
  let ?leaf = "Router Map.empty (Some (Route [Get \<mapsto> 1::nat]))"
  let ?a = "Router [''b'' \<mapsto> ?leaf] None"
  let ?t = "Router [''a/'' \<mapsto> ?a] None"
  let ?regs = "[RHandle Get ''/a/b'' (Some (1::nat))]"
  have h: "\<forall>x \<in> set ?regs. reg_handler x \<noteq> None" by simp
  have t: "register_all ?regs new_router = Inr ?t"
    by (simp add: eval_simps)
  have a: "node_at ?t [''a/''] = Some ?a" by simp
  have l: "node_at ?t [''a/'', ''b''] = Some ?leaf" by simp
  have s: "[''a/'', ''b''] = segments (drop 1 ''/a/b'')"
    by (simp add: segments_nonempty seg_key_def seg_rest_def strings_Index_slash_def)
  from registered_routes_populated [OF h t a] registered_routes_populated [OF h t l] t s
  show ?thesis by simp
qed

section \<open>Facts about the heap model\<close>

lemma hplace_empty [simp]: "hplace h r [] = (h, r)"
  by (simp add: hplace.simps)

lemma hplace_nonempty:
  "path \<noteq> [] \<Longrightarrow>
   hplace h r path =
     (let p1 = ensure_map h r; p2 = ensure_child (fst p1) (snd p1) (seg_key path)
      in hplace (fst p2) (snd p2) (seg_rest path))"
  by (subst hplace.simps) (simp add: Let_def split: prod.splits)

lemma hfind_empty [simp]: "hfind h r [] names = (Some r, names)"
  by (simp add: hfind.simps)

lemma hfind_nonempty:
  "path \<noteq> [] \<Longrightarrow>
   hfind h r path names =
     (let k = seg_key path;
          p1 = (case child h r k of None \<Rightarrow> (None, names) | Some c \<Rightarrow> hfind h c (seg_rest path) names)
      in if hrouted h (fst p1) then p1
         else
           (case child h r (wild_key k) of
              None \<Rightarrow> (None, snd p1)
            | Some c \<Rightarrow>
                let p2 = hfind h c (seg_rest path) (snd p1 @ [TrimRight_slash k])
                in if hrouted h (fst p2) then p2 else (None, snd p2)))"
  by (subst hfind.simps) (auto simp: Let_def split: prod.splits option.splits)

lemmas heap_eval_simps = hplace_nonempty hfind_nonempty ensure_map_def ensure_child_def hset_def
  child_def hrouted_def hHandle_def hHandleAll_def hBuild_def hServeHTTP_def hNew_def
  empty_node_def serve_snapshot_def seg_key_def seg_rest_def strings_Index_slash_def
  wild_key_def TrimRight_slash_def slice_from_1_def verbs_def all_verbs_def Let_def
  StatusNotFound_def StatusMethodNotAllowed_def

lemma heap_invI:
  assumes "b < fresh h"
    and "\<And>a m. node_ch (nodes h a) = Some m \<Longrightarrow> m < fresh h"
    and "\<And>a ro. node_rt (nodes h a) = Some ro \<Longrightarrow> ro < fresh h"
    and "\<And>m k c. maps h m k = Some c \<Longrightarrow> c < fresh h \<and> c \<noteq> b"
    and "\<And>a. fresh h \<le> a \<Longrightarrow> nodes h a = empty_node \<and> maps h a = Map.empty"
  shows "heap_inv b h"
  unfolding heap_inv_def using assms by blast

lemma heap_inv_builder: "heap_inv b h \<Longrightarrow> b < fresh h"
  unfolding heap_inv_def by blast

lemma heap_inv_ch: "heap_inv b h \<Longrightarrow> node_ch (nodes h a) = Some m \<Longrightarrow> m < fresh h"
  unfolding heap_inv_def by blast

lemma heap_inv_rt: "heap_inv b h \<Longrightarrow> node_rt (nodes h a) = Some ro \<Longrightarrow> ro < fresh h"
  unfolding heap_inv_def by blast

lemma heap_inv_maps: "heap_inv b h \<Longrightarrow> maps h m k = Some c \<Longrightarrow> c < fresh h \<and> c \<noteq> b"
  unfolding heap_inv_def by blast

lemma heap_inv_unalloc:
  "heap_inv b h \<Longrightarrow> fresh h \<le> a \<Longrightarrow> nodes h a = empty_node \<and> maps h a = Map.empty"
  unfolding heap_inv_def by blast

lemma ensure_map_cases:
  assumes "ensure_map h r = (h', m)"
  obtains (old) "node_ch (nodes h r) = Some m" "h' = h"
  | (new) "node_ch (nodes h r) = None" "m = fresh h"
      "h' = h\<lparr>maps := (maps h)(fresh h := Map.empty),
             nodes := (nodes h)(r := (nodes h r)\<lparr>node_ch := Some (fresh h)\<rparr>),
             fresh := fresh h + 1\<rparr>"
  using assms by (auto simp: ensure_map_def split: option.splits)

lemma ensure_child_cases:
  assumes "ensure_child h m k = (h', c)"
  obtains (old) "maps h m k = Some c" "h' = h"
  | (new) "maps h m k = None" "c = fresh h"
      "h' = h\<lparr>nodes := (nodes h)(fresh h := empty_node),
             maps := (maps h)(m := (maps h m)(k \<mapsto> fresh h)),
             fresh := fresh h + 1\<rparr>"
  using assms by (auto simp: ensure_child_def split: option.splits)

lemma hset_cases:
  obtains (old) ro where "node_rt (nodes h r) = Some ro"
      "hset h r v hdl = h\<lparr>routes := (routes h)(ro := (routes h ro)(v := hdl))\<rparr>"
  | (new) "node_rt (nodes h r) = None"
      "hset h r v hdl =
         h\<lparr>routes := (routes h)(fresh h := (\<lambda>v. None)(v := hdl)),
           nodes := (nodes h)(r := (nodes h r)\<lparr>node_rt := Some (fresh h)\<rparr>),
           fresh := fresh h + 1\<rparr>"
  by (cases "node_rt (nodes h r)") (auto simp: hset_def)

lemma heap_inv_New:
  assumes "hNew = (h0, b)"
  shows "heap_inv b h0"
proof -
  from assms have "b = 0" and
    "h0 = \<lparr>nodes = (\<lambda>a. empty_node), maps = (\<lambda>a. Map.empty), routes = (\<lambda>a v. None), fresh = 1\<rparr>"
    by (simp_all add: hNew_def)
  then show ?thesis
    by (intro heap_invI) (simp_all add: empty_node_def)
qed

lemma heap_inv_ensure_map:
  assumes inv: "heap_inv b h" and r: "r < fresh h" and em: "ensure_map h r = (h', m)"
  shows "heap_inv b h' \<and> m < fresh h' \<and> fresh h \<le> fresh h'"
  using em
proof (cases rule: ensure_map_cases)
  case old
  with inv heap_inv_ch [OF inv old(1)] show ?thesis by simp
next
  case new
  have "heap_inv b h'"
  proof (rule heap_invI)
    from heap_inv_builder [OF inv] show "b < fresh h'" unfolding new(3) by simp
  next
    fix a m' assume "node_ch (nodes h' a) = Some m'"
    with heap_inv_ch [OF inv, of a m'] show "m' < fresh h'"
      unfolding new(3) by (auto split: if_splits)
  next
    fix a ro assume "node_rt (nodes h' a) = Some ro"
    with heap_inv_rt [OF inv, of a ro] heap_inv_rt [OF inv, of r ro] show "ro < fresh h'"
      unfolding new(3) by (auto split: if_splits)
  next
    fix m' k c assume "maps h' m' k = Some c"
    with heap_inv_maps [OF inv, of m' k c] show "c < fresh h' \<and> c \<noteq> b"
      unfolding new(3) by (auto split: if_splits)
  next
    fix a assume "fresh h' \<le> a"
    with heap_inv_unalloc [OF inv, of a] r show "nodes h' a = empty_node \<and> maps h' a = Map.empty"
      unfolding new(3) by auto
  qed
  then show ?thesis unfolding new(2) new(3) by simp
qed

lemma heap_inv_ensure_child:
  assumes inv: "heap_inv b h" and m: "m < fresh h" and ec: "ensure_child h m k = (h', c)"
  shows "heap_inv b h' \<and> c < fresh h'"
  using ec
proof (cases rule: ensure_child_cases)
  case old
  with inv heap_inv_maps [OF inv old(1)] show ?thesis by simp
next
  case new
  have "heap_inv b h'"
  proof (rule heap_invI)
    from heap_inv_builder [OF inv] show "b < fresh h'" unfolding new(3) by simp
  next
    fix a m' assume "node_ch (nodes h' a) = Some m'"
    with heap_inv_ch [OF inv, of a m'] show "m' < fresh h'"
      unfolding new(3) by (auto simp: empty_node_def split: if_splits)
  next
    fix a ro assume "node_rt (nodes h' a) = Some ro"
    with heap_inv_rt [OF inv, of a ro] show "ro < fresh h'"
      unfolding new(3) by (auto simp: empty_node_def split: if_splits)
  next
    fix m' k' c' assume "maps h' m' k' = Some c'"
    with heap_inv_maps [OF inv, of m' k' c'] heap_inv_builder [OF inv]
    show "c' < fresh h' \<and> c' \<noteq> b"
      unfolding new(3) by (auto split: if_splits)
  next
    fix a assume "fresh h' \<le> a"
    with heap_inv_unalloc [OF inv, of a] m show "nodes h' a = empty_node \<and> maps h' a = Map.empty"
      unfolding new(3) by auto
  qed
  then show ?thesis unfolding new(2) new(3) by simp
qed

lemma heap_inv_hplace:
  "heap_inv b h \<Longrightarrow> r < fresh h \<Longrightarrow> hplace h r p = (h', n) \<Longrightarrow>
   heap_inv b h' \<and> n < fresh h'"
proof (induction h r p arbitrary: h' n rule: hplace.induct)
  case (1 h r path)
  show ?case
  proof (cases "path = []")
    case True
    with 1(2,3,4) show ?thesis by simp
  next
    case False
    obtain h1 m where em: "ensure_map h r = (h1, m)" by (cases "ensure_map h r")
    obtain h2 c where ec: "ensure_child h1 m (seg_key path) = (h2, c)"
      by (cases "ensure_child h1 m (seg_key path)")
    from 1(4) False em ec have rec: "hplace h2 c (seg_rest path) = (h', n)"
      by (simp add: hplace_nonempty)
    from heap_inv_ensure_map [OF 1(2,3) em] have i1: "heap_inv b h1" and m: "m < fresh h1"
      by simp_all
    from heap_inv_ensure_child [OF i1 m ec] have i2: "heap_inv b h2" and c: "c < fresh h2"
      by simp_all
    from 1(1) [OF False em [symmetric] refl refl ec [symmetric] refl i2 c rec]
    show ?thesis .
  qed
qed

lemma heap_inv_hset:
  assumes inv: "heap_inv b h" and r: "r < fresh h"
  shows "heap_inv b (hset h r v hdl) \<and> r < fresh (hset h r v hdl)"
proof (cases rule: hset_cases [of h r v hdl])
  case (old ro)
  have "heap_inv b (hset h r v hdl)"
    unfolding old(2)
    by (rule heap_invI)
       (use inv in \<open>auto dest: heap_inv_builder heap_inv_ch heap_inv_rt heap_inv_maps heap_inv_unalloc\<close>)
  with r show ?thesis unfolding old(2) by simp
next
  case new
  have "heap_inv b (hset h r v hdl)"
    unfolding new(2)
  proof (rule heap_invI)
    from heap_inv_builder [OF inv] show "b < fresh (h\<lparr>routes := (routes h)(fresh h := (\<lambda>v. None)(v := hdl)),
           nodes := (nodes h)(r := (nodes h r)\<lparr>node_rt := Some (fresh h)\<rparr>),
           fresh := fresh h + 1\<rparr>)" by simp
  next
    fix a m' assume "node_ch (nodes (h\<lparr>routes := (routes h)(fresh h := (\<lambda>v. None)(v := hdl)),
           nodes := (nodes h)(r := (nodes h r)\<lparr>node_rt := Some (fresh h)\<rparr>),
           fresh := fresh h + 1\<rparr>) a) = Some m'"
    with heap_inv_ch [OF inv, of a m'] heap_inv_ch [OF inv, of r m']
    show "m' < fresh (h\<lparr>routes := (routes h)(fresh h := (\<lambda>v. None)(v := hdl)),
           nodes := (nodes h)(r := (nodes h r)\<lparr>node_rt := Some (fresh h)\<rparr>),
           fresh := fresh h + 1\<rparr>)"
      by (auto split: if_splits)
  next
    fix a ro assume "node_rt (nodes (h\<lparr>routes := (routes h)(fresh h := (\<lambda>v. None)(v := hdl)),
           nodes := (nodes h)(r := (nodes h r)\<lparr>node_rt := Some (fresh h)\<rparr>),
           fresh := fresh h + 1\<rparr>) a) = Some ro"
    with heap_inv_rt [OF inv, of a ro]
    show "ro < fresh (h\<lparr>routes := (routes h)(fresh h := (\<lambda>v. None)(v := hdl)),
           nodes := (nodes h)(r := (nodes h r)\<lparr>node_rt := Some (fresh h)\<rparr>),
           fresh := fresh h + 1\<rparr>)"
      by (auto split: if_splits)
  next
    fix m' k c assume "maps (h\<lparr>routes := (routes h)(fresh h := (\<lambda>v. None)(v := hdl)),
           nodes := (nodes h)(r := (nodes h r)\<lparr>node_rt := Some (fresh h)\<rparr>),
           fresh := fresh h + 1\<rparr>) m' k = Some c"
    with heap_inv_maps [OF inv, of m' k c]
    show "c < fresh (h\<lparr>routes := (routes h)(fresh h := (\<lambda>v. None)(v := hdl)),
           nodes := (nodes h)(r := (nodes h r)\<lparr>node_rt := Some (fresh h)\<rparr>),
           fresh := fresh h + 1\<rparr>) \<and> c \<noteq> b"
      by auto
  next
    fix a assume "fresh (h\<lparr>routes := (routes h)(fresh h := (\<lambda>v. None)(v := hdl)),
           nodes := (nodes h)(r := (nodes h r)\<lparr>node_rt := Some (fresh h)\<rparr>),
           fresh := fresh h + 1\<rparr>) \<le> a"
    with heap_inv_unalloc [OF inv, of a] r
    show "nodes (h\<lparr>routes := (routes h)(fresh h := (\<lambda>v. None)(v := hdl)),
           nodes := (nodes h)(r := (nodes h r)\<lparr>node_rt := Some (fresh h)\<rparr>),
           fresh := fresh h + 1\<rparr>) a = empty_node \<and>
          maps (h\<lparr>routes := (routes h)(fresh h := (\<lambda>v. None)(v := hdl)),
           nodes := (nodes h)(r := (nodes h r)\<lparr>node_rt := Some (fresh h)\<rparr>),
           fresh := fresh h + 1\<rparr>) a = Map.empty"
      by auto
  qed
  with r show ?thesis unfolding new(2) by simp
qed

lemma heap_inv_fold_hset:
  "heap_inv b h \<Longrightarrow> n < fresh h \<Longrightarrow> heap_inv b (fold (\<lambda>v h'. hset h' n v hdl) vs h)"
proof (induction vs arbitrary: h)
  case Nil
  then show ?case by simp
next
  case (Cons v vs)
  from heap_inv_hset [OF Cons.prems, of v hdl] Cons.IH show ?case by simp
qed

lemma hregister_cases:
  assumes "hregister x r h = Inr h'"
  obtains (one) verb path hdl h1 n where "x = RHandle verb path hdl"
      "hplace h r (drop 1 path) = (h1, n)" "h' = hset h1 n verb hdl"
  | (all) path hdl h1 n where "x = RHandleAll path hdl"
      "hplace h r (drop 1 path) = (h1, n)" "h' = fold (\<lambda>v h'. hset h' n v hdl) all_verbs h1"
proof (cases x)
  case (RHandle verb path hdl)
  obtain h1 n where pl: "hplace h r (drop 1 path) = (h1, n)"
    by (cases "hplace h r (drop 1 path)")
  from assms RHandle pl have "h' = hset h1 n verb hdl"
    by (auto simp: hHandle_def slice_from_1_def split: if_splits)
  with RHandle pl show ?thesis by (rule one)
next
  case (RHandleAll path hdl)
  obtain h1 n where pl: "hplace h r (drop 1 path) = (h1, n)"
    by (cases "hplace h r (drop 1 path)")
  from assms RHandleAll pl have "h' = fold (\<lambda>v h'. hset h' n v hdl) all_verbs h1"
    by (auto simp: hHandleAll_def slice_from_1_def split: if_splits)
  with RHandleAll pl show ?thesis by (rule all)
qed

lemma heap_inv_hregister:
  assumes inv: "heap_inv b h" and reg: "hregister x b h = Inr h'"
  shows "heap_inv b h'"
  using reg
proof (cases rule: hregister_cases)
  case (one verb path hdl h1 n)
  from heap_inv_hplace [OF inv heap_inv_builder [OF inv] one(2)]
  have "heap_inv b h1" "n < fresh h1" by simp_all
  from heap_inv_hset [OF this] one(3) show ?thesis by simp
next
  case (all path hdl h1 n)
  from heap_inv_hplace [OF inv heap_inv_builder [OF inv] all(2)]
  have "heap_inv b h1" "n < fresh h1" by simp_all
  from heap_inv_fold_hset [OF this] all(3) show ?thesis by simp
qed

lemma heap_inv_hregister_all:
  "heap_inv b h \<Longrightarrow> hregister_all regs b h = Inr h' \<Longrightarrow> heap_inv b h'"
proof (induction regs arbitrary: h)
  case Nil
  then show ?case by simp
next
  case (Cons x regs)
  from Cons.prems(2) obtain h1 where x: "hregister x b h = Inr h1"
    and rest: "hregister_all regs b h1 = Inr h'"
    by (auto split: sum.splits)
  from Cons.IH [OF heap_inv_hregister [OF Cons.prems(1) x] rest] show ?case .
qed

lemma hBuild_eq:
  "hBuild h b = (h1, s) \<Longrightarrow>
   s = fresh h \<and>
   h1 = h\<lparr>nodes := (nodes h)(fresh h := nodes h b, b := empty_node), fresh := fresh h + 1\<rparr>"
  by (auto simp: hBuild_def)

lemma heap_inv_hBuild:
  assumes inv: "heap_inv b h" and bu: "hBuild h b = (h1, s)"
  shows "heap_inv b h1"
proof -
  note eq = hBuild_eq [OF bu]
  show ?thesis
  proof (rule heap_invI)
    from heap_inv_builder [OF inv] eq show "b < fresh h1" by simp
  next
    fix a m assume "node_ch (nodes h1 a) = Some m"
    with heap_inv_ch [OF inv, of a m] heap_inv_ch [OF inv, of b m] eq show "m < fresh h1"
      by (auto simp: empty_node_def split: if_splits)
  next
    fix a ro assume "node_rt (nodes h1 a) = Some ro"
    with heap_inv_rt [OF inv, of a ro] heap_inv_rt [OF inv, of b ro] eq show "ro < fresh h1"
      by (auto simp: empty_node_def split: if_splits)
  next
    fix m k c assume "maps h1 m k = Some c"
    with heap_inv_maps [OF inv, of m k c] eq show "c < fresh h1 \<and> c \<noteq> b"
      by auto
  next
    fix a assume "fresh h1 \<le> a"
    with heap_inv_unalloc [OF inv, of a] heap_inv_builder [OF inv] eq
    show "nodes h1 a = empty_node \<and> maps h1 a = Map.empty"
      by auto
  qed
qed

lemma frameI:
  assumes "\<And>a. \<not> owned b f a \<Longrightarrow> nodes h a = nodes h1 a"
    and "\<And>m. m < f \<Longrightarrow> maps h m = maps h1 m"
    and "\<And>ro. ro < f \<Longrightarrow> routes h ro = routes h1 ro"
  shows "frame_inv b f h1 h"
  unfolding frame_inv_def using assms by blast

lemma frame_nodes: "frame_inv b f h1 h \<Longrightarrow> \<not> owned b f a \<Longrightarrow> nodes h a = nodes h1 a"
  unfolding frame_inv_def by blast

lemma frame_maps: "frame_inv b f h1 h \<Longrightarrow> m < f \<Longrightarrow> maps h m = maps h1 m"
  unfolding frame_inv_def by blast

lemma frame_routes: "frame_inv b f h1 h \<Longrightarrow> ro < f \<Longrightarrow> routes h ro = routes h1 ro"
  unfolding frame_inv_def by blast

lemma closedI:
  assumes "f \<le> fresh h"
    and "\<And>a m. owned b f a \<Longrightarrow> node_ch (nodes h a) = Some m \<Longrightarrow> f \<le> m"
    and "\<And>a ro. owned b f a \<Longrightarrow> node_rt (nodes h a) = Some ro \<Longrightarrow> f \<le> ro"
    and "\<And>m k c. f \<le> m \<Longrightarrow> maps h m k = Some c \<Longrightarrow> f \<le> c"
  shows "owned_closed b f h"
  unfolding owned_closed_def using assms by blast

lemma closed_fresh: "owned_closed b f h \<Longrightarrow> f \<le> fresh h"
  unfolding owned_closed_def by blast

lemma closed_ch:
  "owned_closed b f h \<Longrightarrow> owned b f a \<Longrightarrow> node_ch (nodes h a) = Some m \<Longrightarrow> f \<le> m"
  unfolding owned_closed_def by blast

lemma closed_rt:
  "owned_closed b f h \<Longrightarrow> owned b f a \<Longrightarrow> node_rt (nodes h a) = Some ro \<Longrightarrow> f \<le> ro"
  unfolding owned_closed_def by blast

lemma closed_maps:
  "owned_closed b f h \<Longrightarrow> f \<le> m \<Longrightarrow> maps h m k = Some c \<Longrightarrow> f \<le> c"
  unfolding owned_closed_def by blast

lemma post_ensure_map:
  assumes fr: "frame_inv b f h1 h" and cl: "owned_closed b f h" and ow: "owned b f r"
    and em: "ensure_map h r = (h', m)"
  shows "frame_inv b f h1 h' \<and> owned_closed b f h' \<and> f \<le> m"
  using em
proof (cases rule: ensure_map_cases)
  case old
  with fr cl closed_ch [OF cl ow old(1)] show ?thesis by simp
next
  case new
  note f = closed_fresh [OF cl]
  have "frame_inv b f h1 h'"
  proof (rule frameI)
    fix a assume "\<not> owned b f a"
    with ow frame_nodes [OF fr, of a] show "nodes h' a = nodes h1 a"
      unfolding new(3) by auto
  next
    fix m' :: addr assume "m' < f"
    with f frame_maps [OF fr, of m'] show "maps h' m' = maps h1 m'"
      unfolding new(3) by auto
  next
    fix ro :: addr assume "ro < f"
    with frame_routes [OF fr, of ro] show "routes h' ro = routes h1 ro"
      unfolding new(3) by auto
  qed
  moreover have "owned_closed b f h'"
  proof (rule closedI)
    from f show "f \<le> fresh h'" unfolding new(3) by simp
  next
    fix a m' assume "owned b f a" "node_ch (nodes h' a) = Some m'"
    with closed_ch [OF cl, of a m'] f show "f \<le> m'"
      unfolding new(3) by (auto split: if_splits)
  next
    fix a ro assume "owned b f a" "node_rt (nodes h' a) = Some ro"
    with closed_rt [OF cl, of a ro] ow show "f \<le> ro"
      unfolding new(3) by (auto split: if_splits)
  next
    fix m' k c assume "f \<le> m'" "maps h' m' k = Some c"
    with closed_maps [OF cl, of m' k c] show "f \<le> c"
      unfolding new(3) by (auto split: if_splits)
  qed
  ultimately show ?thesis using f unfolding new(2) by simp
qed

lemma post_ensure_child:
  assumes fr: "frame_inv b f h1 h" and cl: "owned_closed b f h" and m: "f \<le> m"
    and ec: "ensure_child h m k = (h', c)"
  shows "frame_inv b f h1 h' \<and> owned_closed b f h' \<and> owned b f c"
  using ec
proof (cases rule: ensure_child_cases)
  case old
  with fr cl closed_maps [OF cl m old(1)] show ?thesis by (simp add: owned_def)
next
  case new
  note f = closed_fresh [OF cl]
  have "frame_inv b f h1 h'"
  proof (rule frameI)
    fix a assume "\<not> owned b f a"
    with f frame_nodes [OF fr, of a] show "nodes h' a = nodes h1 a"
      unfolding new(3) by (auto simp: owned_def)
  next
    fix m' :: addr assume "m' < f"
    with m frame_maps [OF fr, of m'] show "maps h' m' = maps h1 m'"
      unfolding new(3) by auto
  next
    fix ro :: addr assume "ro < f"
    with frame_routes [OF fr, of ro] show "routes h' ro = routes h1 ro"
      unfolding new(3) by auto
  qed
  moreover have "owned_closed b f h'"
  proof (rule closedI)
    from f show "f \<le> fresh h'" unfolding new(3) by simp
  next
    fix a m' assume "owned b f a" "node_ch (nodes h' a) = Some m'"
    with closed_ch [OF cl, of a m'] show "f \<le> m'"
      unfolding new(3) by (auto simp: empty_node_def split: if_splits)
  next
    fix a ro assume "owned b f a" "node_rt (nodes h' a) = Some ro"
    with closed_rt [OF cl, of a ro] show "f \<le> ro"
      unfolding new(3) by (auto simp: empty_node_def split: if_splits)
  next
    fix m' k' c' assume "f \<le> m'" "maps h' m' k' = Some c'"
    with closed_maps [OF cl, of m' k' c'] f show "f \<le> c'"
      unfolding new(3) by (auto split: if_splits)
  qed
  ultimately show ?thesis using f unfolding new(2) by (simp add: owned_def)
qed

lemma post_hplace:
  "frame_inv b f h1 h \<Longrightarrow> owned_closed b f h \<Longrightarrow> owned b f r \<Longrightarrow> hplace h r p = (h', n) \<Longrightarrow>
   frame_inv b f h1 h' \<and> owned_closed b f h' \<and> owned b f n"
proof (induction h r p arbitrary: h' n rule: hplace.induct)
  case (1 h r path)
  show ?case
  proof (cases "path = []")
    case True
    with 1(2-5) show ?thesis by simp
  next
    case False
    obtain h2 m where em: "ensure_map h r = (h2, m)" by (cases "ensure_map h r")
    obtain h3 c where ec: "ensure_child h2 m (seg_key path) = (h3, c)"
      by (cases "ensure_child h2 m (seg_key path)")
    from 1(5) False em ec have rec: "hplace h3 c (seg_rest path) = (h', n)"
      by (simp add: hplace_nonempty)
    from post_ensure_map [OF 1(2,3,4) em]
    have f2: "frame_inv b f h1 h2" and c2: "owned_closed b f h2" and m: "f \<le> m" by simp_all
    from post_ensure_child [OF f2 c2 m ec]
    have f3: "frame_inv b f h1 h3" and c3: "owned_closed b f h3" and c: "owned b f c" by simp_all
    from 1(1) [OF False em [symmetric] refl refl ec [symmetric] refl f3 c3 c rec]
    show ?thesis .
  qed
qed

lemma post_hset:
  assumes fr: "frame_inv b f h1 h" and cl: "owned_closed b f h" and ow: "owned b f r"
  shows "frame_inv b f h1 (hset h r v hdl) \<and> owned_closed b f (hset h r v hdl)"
proof (cases rule: hset_cases [of h r v hdl])
  case (old ro)
  note ro = closed_rt [OF cl ow old(1)]
  have "frame_inv b f h1 (hset h r v hdl)"
  proof (rule frameI)
    fix a assume "\<not> owned b f a"
    with frame_nodes [OF fr, of a] show "nodes (hset h r v hdl) a = nodes h1 a"
      unfolding old(2) by simp
  next
    fix m :: addr assume "m < f"
    with frame_maps [OF fr, of m] show "maps (hset h r v hdl) m = maps h1 m"
      unfolding old(2) by simp
  next
    fix ro' :: addr assume "ro' < f"
    with ro frame_routes [OF fr, of ro'] show "routes (hset h r v hdl) ro' = routes h1 ro'"
      unfolding old(2) by auto
  qed
  moreover have "owned_closed b f (hset h r v hdl)"
    unfolding old(2)
    by (rule closedI) (use cl in \<open>auto dest: closed_fresh closed_ch closed_rt closed_maps\<close>)
  ultimately show ?thesis by simp
next
  case new
  note f = closed_fresh [OF cl]
  have "frame_inv b f h1 (hset h r v hdl)"
  proof (rule frameI)
    fix a assume "\<not> owned b f a"
    with ow frame_nodes [OF fr, of a] show "nodes (hset h r v hdl) a = nodes h1 a"
      unfolding new(2) by auto
  next
    fix m :: addr assume "m < f"
    with frame_maps [OF fr, of m] show "maps (hset h r v hdl) m = maps h1 m"
      unfolding new(2) by simp
  next
    fix ro' :: addr assume "ro' < f"
    with f frame_routes [OF fr, of ro'] show "routes (hset h r v hdl) ro' = routes h1 ro'"
      unfolding new(2) by auto
  qed
  moreover have "owned_closed b f (hset h r v hdl)"
  proof (rule closedI)
    from f show "f \<le> fresh (hset h r v hdl)" unfolding new(2) by simp
  next
    fix a m assume "owned b f a" "node_ch (nodes (hset h r v hdl) a) = Some m"
    with closed_ch [OF cl, of a m] ow show "f \<le> m"
      unfolding new(2) by (auto split: if_splits)
  next
    fix a ro assume "owned b f a" "node_rt (nodes (hset h r v hdl) a) = Some ro"
    with closed_rt [OF cl, of a ro] f show "f \<le> ro"
      unfolding new(2) by (auto split: if_splits)
  next
    fix m k c assume "f \<le> m" "maps (hset h r v hdl) m k = Some c"
    with closed_maps [OF cl, of m k c] show "f \<le> c"
      unfolding new(2) by simp
  qed
  ultimately show ?thesis by simp
qed

lemma post_fold_hset:
  "frame_inv b f h1 h \<Longrightarrow> owned_closed b f h \<Longrightarrow> owned b f n \<Longrightarrow>
   frame_inv b f h1 (fold (\<lambda>v h'. hset h' n v hdl) vs h) \<and>
   owned_closed b f (fold (\<lambda>v h'. hset h' n v hdl) vs h)"
proof (induction vs arbitrary: h)
  case Nil
  then show ?case by simp
next
  case (Cons v vs)
  from post_hset [OF Cons.prems, of v hdl] Cons.prems(3) Cons.IH show ?case by simp
qed

lemma post_hregister:
  assumes fr: "frame_inv b f h1 h" and cl: "owned_closed b f h" and reg: "hregister x b h = Inr h'"
  shows "frame_inv b f h1 h' \<and> owned_closed b f h'"
  using reg
proof (cases rule: hregister_cases)
  case (one verb path hdl h2 n)
  from post_hplace [OF fr cl _ one(2)]
  have "frame_inv b f h1 h2" "owned_closed b f h2" "owned b f n" by (simp_all add: owned_def)
  from post_hset [OF this] one(3) show ?thesis by simp
next
  case (all path hdl h2 n)
  from post_hplace [OF fr cl _ all(2)]
  have "frame_inv b f h1 h2" "owned_closed b f h2" "owned b f n" by (simp_all add: owned_def)
  from post_fold_hset [OF this] all(3) show ?thesis by simp
qed

lemma post_hregister_all:
  "frame_inv b f h1 h \<Longrightarrow> owned_closed b f h \<Longrightarrow> hregister_all regs b h = Inr h' \<Longrightarrow>
   frame_inv b f h1 h'"
proof (induction regs arbitrary: h)
  case Nil
  then show ?case by simp
next
  case (Cons x regs)
  from Cons.prems(3) obtain h2 where x: "hregister x b h = Inr h2"
    and rest: "hregister_all regs b h2 = Inr h'"
    by (auto split: sum.splits)
  from post_hregister [OF Cons.prems(1,2) x]
  have "frame_inv b f h1 h2" "owned_closed b f h2" by simp_all
  from Cons.IH [OF this rest] show ?case .
qed

lemma post_hBuild:
  assumes inv: "heap_inv b h" and bu: "hBuild h b = (h1, s)"
  shows "frame_inv b (fresh h1) h1 h1 \<and> owned_closed b (fresh h1) h1"
proof -
  note eq = hBuild_eq [OF bu]
  note inv1 = heap_inv_hBuild [OF inv bu]
  have "owned_closed b (fresh h1) h1"
  proof (rule closedI)
    show "fresh h1 \<le> fresh h1" by simp
  next
    fix a m assume "owned b (fresh h1) a" "node_ch (nodes h1 a) = Some m"
    with heap_inv_unalloc [OF inv1, of a] eq show "fresh h1 \<le> m"
      by (auto simp: owned_def empty_node_def split: if_splits)
  next
    fix a ro assume "owned b (fresh h1) a" "node_rt (nodes h1 a) = Some ro"
    with heap_inv_unalloc [OF inv1, of a] eq show "fresh h1 \<le> ro"
      by (auto simp: owned_def empty_node_def split: if_splits)
  next
    fix m k c assume "fresh h1 \<le> m" "maps h1 m k = Some c"
    with heap_inv_unalloc [OF inv1, of m] show "fresh h1 \<le> c" by simp
  qed
  then show ?thesis by (simp add: frame_inv_def)
qed

text \<open>
  A walk reads only the nodes it reaches. One step of \<open>hfind\<close>, from two roots with the
  same children, over two heaps in which the walks from those children agree:
\<close>

lemma hfind_step:
  assumes ne: "p \<noteq> []"
    and ch_eq: "\<And>k. child h' a' k = child h a k"
    and ch_in: "\<And>k c. child h a k = Some c \<Longrightarrow> c \<in> P"
    and sub: "\<And>c ns. c \<in> P \<Longrightarrow>
        hfind h' c (seg_rest p) ns = hfind h c (seg_rest p) ns \<and>
        (\<forall>t. fst (hfind h c (seg_rest p) ns) = Some t \<longrightarrow> t \<in> P)"
    and rt_eq: "\<And>t. t \<in> P \<Longrightarrow> node_rt (nodes h' t) = node_rt (nodes h t)"
  shows "hfind h' a' p ns = hfind h a p ns \<and> (\<forall>t. fst (hfind h a p ns) = Some t \<longrightarrow> t \<in> P)"
proof -
  let ?k = "seg_key p" and ?rest = "seg_rest p"
  have routed_eq: "hrouted h' res = hrouted h res" if "\<And>t. res = Some t \<Longrightarrow> t \<in> P" for res
    using that rt_eq by (cases res) (auto simp: hrouted_def)
  let ?p1 = "case child h a ?k of None \<Rightarrow> (None, ns) | Some c \<Rightarrow> hfind h c ?rest ns"
  let ?p1' = "case child h' a' ?k of None \<Rightarrow> (None, ns) | Some c \<Rightarrow> hfind h' c ?rest ns"
  have p1: "?p1' = ?p1 \<and> (\<forall>t. fst ?p1 = Some t \<longrightarrow> t \<in> P)"
  proof (cases "child h a ?k")
    case None
    then show ?thesis by (simp add: ch_eq)
  next
    case (Some c)
    from sub [OF ch_in [OF Some], of ns] Some show ?thesis
      by (simp add: ch_eq)
  qed
  then have r1: "hrouted h' (fst ?p1) = hrouted h (fst ?p1)"
    by (intro routed_eq) simp
  show ?thesis
  proof (cases "hrouted h (fst ?p1)")
    case True
    with p1 r1 ne show ?thesis
      by (simp add: hfind_nonempty Let_def)
  next
    case unrouted: False
    show ?thesis
    proof (cases "child h a (wild_key ?k)")
      case None
      with p1 r1 unrouted ne show ?thesis
        by (simp add: hfind_nonempty Let_def ch_eq)
    next
      case (Some c)
      let ?ns2 = "snd ?p1 @ [TrimRight_slash ?k]"
      from sub [OF ch_in [OF Some], of ?ns2]
      have p2: "hfind h' c ?rest ?ns2 = hfind h c ?rest ?ns2"
        and in2: "\<And>t. fst (hfind h c ?rest ?ns2) = Some t \<Longrightarrow> t \<in> P"
        by simp_all
      have r2: "hrouted h' (fst (hfind h c ?rest ?ns2)) = hrouted h (fst (hfind h c ?rest ?ns2))"
        by (intro routed_eq in2) simp
      from p1 r1 unrouted ne Some p2 r2 in2 show ?thesis
        by (simp add: hfind_nonempty Let_def ch_eq)
    qed
  qed
qed

lemma agree_child: "agree_on P h h' \<Longrightarrow> a \<in> P \<Longrightarrow> child h' a k = child h a k"
  unfolding agree_on_def child_def by (auto split: option.splits)

lemma agree_child_in: "agree_on P h h' \<Longrightarrow> a \<in> P \<Longrightarrow> child h a k = Some c \<Longrightarrow> c \<in> P"
  unfolding agree_on_def child_def by (auto split: option.splits)

lemma agree_nodes: "agree_on P h h' \<Longrightarrow> a \<in> P \<Longrightarrow> nodes h' a = nodes h a"
  unfolding agree_on_def by blast

lemma hfind_frame:
  assumes ag: "agree_on P h h'"
  shows "a \<in> P \<Longrightarrow>
         hfind h' a p ns = hfind h a p ns \<and> (\<forall>t. fst (hfind h a p ns) = Some t \<longrightarrow> t \<in> P)"
proof (induction "length p" arbitrary: a p ns rule: less_induct)
  case less
  show ?case
  proof (cases "p = []")
    case True
    with less.prems show ?thesis by simp
  next
    case False
    then have short: "length (seg_rest p) < length p" by (rule seg_rest_shorter)
    show ?thesis
    proof (rule hfind_step [OF False, where P = P])
      show "child h' a k = child h a k" for k
        by (rule agree_child [OF ag less.prems])
      show "c \<in> P" if "child h a k = Some c" for k c
        using that by (rule agree_child_in [OF ag less.prems])
      show "hfind h' c (seg_rest p) ns = hfind h c (seg_rest p) ns \<and>
            (\<forall>t. fst (hfind h c (seg_rest p) ns) = Some t \<longrightarrow> t \<in> P)" if "c \<in> P" for c ns
        using that by (rule less.hyps [OF short])
      show "node_rt (nodes h' t) = node_rt (nodes h t)" if "t \<in> P" for t
        using that by (simp add: agree_nodes [OF ag])
    qed
  qed
qed

lemma hServeHTTP_respond:
  "hServeHTTP h r method url_path =
     (case verbs method of
        None \<Rightarrow> Inr (Status StatusMethodNotAllowed)
      | Some v \<Rightarrow>
          (case slice_from_1 url_path of
             Inl e \<Rightarrow> Inl e
           | Inr p \<Rightarrow> respond h v (hfind h r p [])))"
  by (simp add: hServeHTTP_def respond_def split: option.splits sum.splits)

lemma respond_agree:
  assumes "\<And>t. fst res = Some t \<Longrightarrow> node_rt (nodes h' t) = node_rt (nodes h t)"
    and "\<And>t ro. fst res = Some t \<Longrightarrow> node_rt (nodes h t) = Some ro \<Longrightarrow> routes h' ro = routes h ro"
  shows "respond h' v res = respond h v res"
  using assms by (cases res) (auto simp: respond_def split: option.splits)

lemma serve_frame:
  assumes inv: "heap_inv b h1" and fr: "frame_inv b (fresh h1) h1 h2"
    and s: "s < fresh h1" "s \<noteq> b"
  shows "hServeHTTP h2 s method url_path = hServeHTTP h1 s method url_path"
proof -
  let ?P = "{a. a < fresh h1 \<and> a \<noteq> b}"
  have ag: "agree_on ?P h1 h2"
    unfolding agree_on_def
  proof (intro ballI conjI allI impI)
    fix a assume "a \<in> ?P"
    then show "nodes h2 a = nodes h1 a"
      by (intro frame_nodes [OF fr]) (auto simp: owned_def)
  next
    fix a m assume "a \<in> ?P" "node_ch (nodes h1 a) = Some m"
    then show "maps h2 m = maps h1 m"
      by (intro frame_maps [OF fr] heap_inv_ch [OF inv])
  next
    fix a m k c assume "maps h1 m k = Some c"
    with heap_inv_maps [OF inv this] show "c \<in> ?P" by simp
  qed
  from s have sP: "s \<in> ?P" by simp
  have "respond h2 v (hfind h2 s p []) = respond h1 v (hfind h1 s p [])" for v p
  proof -
    from hfind_frame [OF ag sP, of p "[]"]
    have eq: "hfind h2 s p [] = hfind h1 s p []"
      and inP: "\<And>t. fst (hfind h1 s p []) = Some t \<Longrightarrow> t \<in> ?P" by simp_all
    show ?thesis
      unfolding eq
    proof (rule respond_agree)
      fix t assume "fst (hfind h1 s p []) = Some t"
      from agree_nodes [OF ag inP [OF this]] show "node_rt (nodes h2 t) = node_rt (nodes h1 t)"
        by simp
    next
      fix t ro assume "node_rt (nodes h1 t) = Some ro"
      then show "routes h2 ro = routes h1 ro"
        by (intro frame_routes [OF fr] heap_inv_rt [OF inv])
    qed
  qed
  then show ?thesis
    by (simp add: hServeHTTP_respond split: option.splits sum.splits)
qed

lemma serve_build:
  assumes inv: "heap_inv b h" and bu: "hBuild h b = (h1, s)"
  shows "hServeHTTP h1 s method url_path = hServeHTTP h b method url_path"
proof -
  note eq = hBuild_eq [OF bu]
  let ?P = "{a. a < fresh h \<and> a \<noteq> b}"
  have n1: "nodes h1 a = nodes h a" if "a \<in> ?P" for a
    using that eq by auto
  have ns: "nodes h1 s = nodes h b"
    using eq heap_inv_builder [OF inv] by auto
  have m1: "maps h1 = maps h" and r1: "routes h1 = routes h"
    using eq by simp_all
  have ag: "agree_on ?P h h1"
    unfolding agree_on_def
  proof (intro ballI conjI allI impI)
    fix a assume "a \<in> ?P"
    then show "nodes h1 a = nodes h a" by (rule n1)
  next
    fix a m show "maps h1 m = maps h m" by (simp add: m1)
  next
    fix a m k c assume "maps h m k = Some c"
    with heap_inv_maps [OF inv this] show "c \<in> ?P" by simp
  qed
  have ch_eq: "child h1 s k = child h b k" for k
    by (simp add: child_def ns m1 split: option.splits)
  have ch_in: "c \<in> ?P" if "child h b k = Some c" for k c
    using that heap_inv_maps [OF inv, of _ k c] by (auto simp: child_def split: option.splits)
  have "respond h1 v (hfind h1 s p []) = respond h v (hfind h b p [])" for v p
  proof (cases "p = []")
    case True
    then show ?thesis by (simp add: respond_def ns r1 split: option.splits)
  next
    case False
    have "hfind h1 s p [] = hfind h b p [] \<and> (\<forall>t. fst (hfind h b p []) = Some t \<longrightarrow> t \<in> ?P)"
    proof (rule hfind_step [OF False, where P = ?P])
      show "child h1 s k = child h b k" for k by (rule ch_eq)
      show "c \<in> ?P" if "child h b k = Some c" for k c using that by (rule ch_in)
      show "hfind h1 c (seg_rest p) ns = hfind h c (seg_rest p) ns \<and>
            (\<forall>t. fst (hfind h c (seg_rest p) ns) = Some t \<longrightarrow> t \<in> ?P)" if "c \<in> ?P" for c ns
        using that by (rule hfind_frame [OF ag])
      show "node_rt (nodes h1 t) = node_rt (nodes h t)" if "t \<in> ?P" for t
        using that by (simp add: n1)
    qed
    then have eq': "hfind h1 s p [] = hfind h b p []"
      and inP: "\<And>t. fst (hfind h b p []) = Some t \<Longrightarrow> t \<in> ?P" by simp_all
    show ?thesis
      unfolding eq'
    proof (rule respond_agree)
      fix t assume "fst (hfind h b p []) = Some t"
      from n1 [OF inP [OF this]] show "node_rt (nodes h1 t) = node_rt (nodes h t)" by simp
    next
      fix ro show "routes h1 ro = routes h ro" by (simp add: r1)
    qed
  qed
  then show ?thesis
    by (simp add: hServeHTTP_respond split: option.splits sum.splits)
qed

text \<open>
  The dispatcher on the heap is the dispatcher on the tree that the heap holds at the
  handler's address (a walk never goes deeper than the length of the path).
\<close>

lemma rt_heap_tree:
  "rt (heap_tree d h a) = map_option (\<lambda>ro. Route (routes h ro)) (node_rt (nodes h a))"
  by (cases d) simp_all

lemma routed_heap_tree: "routed (map_option (heap_tree d h) res) = hrouted h res"
  by (cases res) (simp_all add: routed_def hrouted_def rt_heap_tree)

lemma hfind_heap_tree:
  "length p \<le> d \<Longrightarrow>
   \<exists>d'. find (heap_tree d h a) p ns =
         (map_option (heap_tree d' h) (fst (hfind h a p ns)), snd (hfind h a p ns))"
proof (induction "length p" arbitrary: p d a ns rule: less_induct)
  case less
  show ?case
  proof (cases "p = []")
    case True
    then show ?thesis by (auto intro: exI [of _ d])
  next
    case False
    then have short: "length (seg_rest p) < length p" by (rule seg_rest_shorter)
    with less.prems obtain e where d: "d = Suc e" and e: "length (seg_rest p) \<le> e"
      by (cases d) auto
    let ?k = "seg_key p" and ?rest = "seg_rest p"
    let ?t = "heap_tree d h a"
    have ch: "ch ?t k = map_option (heap_tree e h) (child h a k)" for k
      by (simp add: d)
    let ?p1 = "case child h a ?k of None \<Rightarrow> (None, ns) | Some c \<Rightarrow> hfind h c ?rest ns"
    let ?q1 = "case ch ?t ?k of None \<Rightarrow> (None, ns) | Some c \<Rightarrow> find c ?rest ns"
    have q1: "\<exists>d'. ?q1 = (map_option (heap_tree d' h) (fst ?p1), snd ?p1)"
    proof (cases "child h a ?k")
      case None
      then show ?thesis by (simp add: ch)
    next
      case (Some c)
      from less.hyps [OF short e, of c ns] Some show ?thesis
        by (simp add: ch)
    qed
    then obtain d1 where q1': "?q1 = (map_option (heap_tree d1 h) (fst ?p1), snd ?p1)" ..
    have r1: "routed (fst ?q1) = hrouted h (fst ?p1)"
      unfolding q1' by (simp add: routed_heap_tree)
    show ?thesis
    proof (cases "hrouted h (fst ?p1)")
      case True
      with r1 q1' False show ?thesis
        by (auto simp: find_nonempty hfind_nonempty Let_def)
    next
      case unrouted: False
      show ?thesis
      proof (cases "child h a (wild_key ?k)")
        case None
        with r1 q1' unrouted False show ?thesis
          by (auto simp: find_nonempty hfind_nonempty Let_def ch)
      next
        case (Some c)
        let ?ns2 = "snd ?p1 @ [TrimRight_slash ?k]"
        from less.hyps [OF short e, of c ?ns2] obtain d2 where
          q2: "find (heap_tree e h c) ?rest ?ns2 =
                 (map_option (heap_tree d2 h) (fst (hfind h c ?rest ?ns2)), snd (hfind h c ?rest ?ns2))"
          by auto
        have r2: "routed (fst (find (heap_tree e h c) ?rest ?ns2)) = hrouted h (fst (hfind h c ?rest ?ns2))"
          unfolding q2 by (simp add: routed_heap_tree)
        from r1 q1' unrouted False Some q2 r2 show ?thesis
          by (auto simp: find_nonempty hfind_nonempty Let_def ch)
      qed
    qed
  qed
qed

lemma hServeHTTP_heap_tree:
  "hServeHTTP h r method url_path = ServeHTTP (heap_tree (length url_path) h r) method url_path"
proof (cases "verbs method")
  case None
  then show ?thesis by (simp add: hServeHTTP_def ServeHTTP_def)
next
  case (Some v)
  show ?thesis
  proof (cases "url_path = []")
    case True
    with Some show ?thesis by (simp add: hServeHTTP_def ServeHTTP_def slice_from_1_def)
  next
    case False
    from hfind_heap_tree [of "drop 1 url_path" "length url_path" h r "[]"]
    obtain d' where "find (heap_tree (length url_path) h r) (drop 1 url_path) [] =
         (map_option (heap_tree d' h) (fst (hfind h r (drop 1 url_path) [])),
          snd (hfind h r (drop 1 url_path) []))"
      by auto
    with Some False show ?thesis
      by (cases "hfind h r (drop 1 url_path) []")
         (auto simp: hServeHTTP_def ServeHTTP_def slice_from_1_def rt_heap_tree
           split: option.splits)
  qed
qed

section \<open>Build\<close>

text \<open>
  C5. Let registrations \<open>regs0\<close> on a new builder \<open>b\<close> give the heap \<open>h\<close>, let
  \<open>Build\<close> then give the heap \<open>h1\<close> and the handler \<open>s\<close>, and let any further
  registrations \<open>regs1\<close> on the same builder give \<open>h2\<close>. Then the handler serves every
  request as the builder's tree did before \<open>Build\<close>, the builder's node is reset to the
  empty \<^verbatim>\<open>router{}\<close>, and the handler serves every request in \<open>h2\<close> exactly as in
  \<open>h1\<close>: no registration after \<open>Build\<close> changes any of its responses.
\<close>

theorem Build_snapshot_independent:
  assumes new: "hNew = (h0, b)"
    and before: "hregister_all regs0 b h0 = Inr h"
    and build: "hBuild h b = (h1, s)"
    and after: "hregister_all regs1 b h1 = Inr h2"
  shows "hServeHTTP h1 s method url_path = hServeHTTP h b method url_path \<and>
         nodes h1 b = empty_node \<and>
         hServeHTTP h2 s method url_path = hServeHTTP h1 s method url_path"
proof -
  have inv: "heap_inv b h"
    by (rule heap_inv_hregister_all [OF heap_inv_New [OF new] before])
  have inv1: "heap_inv b h1"
    by (rule heap_inv_hBuild [OF inv build])
  note eq = hBuild_eq [OF build]
  from post_hBuild [OF inv build]
  have fr1: "frame_inv b (fresh h1) h1 h1" and cl1: "owned_closed b (fresh h1) h1"
    by simp_all
  have fr2: "frame_inv b (fresh h1) h1 h2"
    by (rule post_hregister_all [OF fr1 cl1 after])
  from eq heap_inv_builder [OF inv] have s: "s < fresh h1" "s \<noteq> b" by auto
  from eq have reset: "nodes h1 b = empty_node" by simp
  from serve_build [OF inv build] reset serve_frame [OF inv1 fr2 s]
  show ?thesis by simp
qed

lemma hregister_total:
  "reg_path x \<noteq> [] \<Longrightarrow> \<exists>h'. hregister x r h = Inr h'"
  by (cases x) (auto simp: hHandle_def hHandleAll_def slice_from_1_def split: prod.splits)

lemma hregister_all_total:
  "\<forall>x \<in> set regs. reg_path x \<noteq> [] \<Longrightarrow> \<exists>h'. hregister_all regs r h = Inr h'"
proof (induction regs arbitrary: h)
  case Nil
  then show ?case by simp
next
  case (Cons x regs)
  from Cons.prems hregister_total [of x r h] obtain h1 where "hregister x r h = Inr h1"
    by auto
  with Cons.IH [of h1] Cons.prems show ?case by simp
qed

text \<open>
  The witness: GET \<^verbatim>\<open>/a\<close> is registered with handler 1, the builder is built, and GET
  \<^verbatim>\<open>/a\<close> is registered again on the same builder with handler 2; the snapshot still
  calls handler 1.
\<close>

theorem Build_snapshot_independent_witness:
  "serve_snapshot [RHandle Get ''/a'' (Some (1::nat))] [RHandle Get ''/a'' (Some 2)] ''GET'' ''/a''
     = Inr (Invoked 1 [])"
proof -
  let ?regs0 = "[RHandle Get ''/a'' (Some (1::nat))]"
  let ?regs1 = "[RHandle Get ''/a'' (Some (2::nat))]"
  obtain h0 :: "nat heap" and b where new: "hNew = (h0, b)" by (cases "hNew :: nat heap \<times> addr")
  obtain h where before: "hregister_all ?regs0 b h0 = Inr h"
    using hregister_all_total [of ?regs0 b h0] by auto
  obtain h1 s where build: "hBuild h b = (h1, s)" by (cases "hBuild h b")
  obtain h2 where after: "hregister_all ?regs1 b h1 = Inr h2"
    using hregister_all_total [of ?regs1 b h1] by auto
  have "case hNew :: nat heap \<times> addr of (h0, b) \<Rightarrow>
          (case hregister_all ?regs0 b h0 of
             Inl e \<Rightarrow> False
           | Inr h \<Rightarrow> hServeHTTP h b ''GET'' ''/a'' = Inr (Invoked 1 []))"
    by (simp add: heap_eval_simps)
  then have served: "hServeHTTP h b ''GET'' ''/a'' = Inr (Invoked 1 [])"
    unfolding new prod.case before sum.case .
  from Build_snapshot_independent [OF new before build after, of "''GET''" "''/a''"] served
  have "hServeHTTP h2 s ''GET'' ''/a'' = Inr (Invoked 1 [])" by simp
  then show ?thesis
    unfolding serve_snapshot_def new prod.case before build after sum.case .
qed

end
